theory Spec2Isabelle
  imports Main "HOL-Library.Word"
begin

unbundle bit_operations_syntax

section \<open>Machine types and faults\<close>

text \<open>
  The program fixes \<open>limb_int = uint32_t\<close>, \<open>limb2_int = uint64_t\<close> and
  \<open>limb2_int_signed = int64_t\<close>.  A signed double limb is kept as a \<open>64 word\<close> and read
  with \<open>sint\<close>; \<open>unsigned\<close> is a \<open>32 word\<close>, \<open>unsigned long\<close> and \<open>size_t\<close> are
  \<open>64 word\<close> (LP64).  Vectors are lists; their length is a natural number.
\<close>

type_synonym limb_int = "32 word"
type_synonym limb2_int = "64 word"
type_synonym limb2_int_signed = "64 word"

definition limb_bits :: nat where
  "limb_bits = 32"

definition limb_max :: "64 word" where
  "limb_max = 4294967295"

definition arg_max :: "64 word" where
  "arg_max = push_bit (limb_bits div 2) 1 - 1"

definition block_height :: "32 word" where
  "block_height = 64"

definition block_width :: "32 word" where
  "block_width = 64"

text \<open>
  Every way a run can stop other than by returning: \<open>usage_and_exit\<close> (the usage text is
  printed and \<open>std::exit\<close> is called with the code), an exception of \<open>std::stoul\<close> that
  nothing catches, an \<open>operator[]\<close> or iterator access outside its vector, a division
  or remainder by zero, and a failed \<open>assert\<close>.
\<close>

datatype fault =
    Usage_Exit int
  | Uncaught_Exception
  | Out_Of_Bounds
  | Division_By_Zero
  | Assertion_Failed
  | Null_Argument

section \<open>The accumulator\<close>

text \<open>
  \<open>accumulate\<close>, branch \<open>delta >= 0\<close>:
  \<^verbatim>\<open>while (d != 0) { d += accumulator[offset]; accumulator[offset] = d;
                    d >>= limb_bits; offset--; }\<close>
  The offset is an \<open>unsigned\<close>, so \<open>offset--\<close> at 0 wraps to \<open>2^32 - 1\<close>.
\<close>

function acc_carry :: "limb_int list \<Rightarrow> limb2_int \<Rightarrow> 32 word \<Rightarrow> fault + limb_int list" where
  "acc_carry acc d offset =
     (if d = 0 then Inr acc
      else if length acc \<le> unat offset then Inl Out_Of_Bounds
      else let d1 = d + ucast (acc ! unat offset)
           in acc_carry (acc[unat offset := ucast d1]) (drop_bit 32 d1) (offset - 1))"
  by pat_completeness auto

text \<open>
  \<open>accumulate\<close>, branch \<open>delta < 0\<close>, with \<open>d = -delta\<close>:
  \<^verbatim>\<open>while (d > accumulator[offset]) {
      limb_int d_low = d;  d >>= limb_bits;
      if (d_low > accumulator[offset]) {
          limb2_int temp = (borrow + accumulator[offset]) - d_low;
          accumulator[offset] = temp;  assert((temp >> limb_bits) == 0);  d++;
      } else accumulator[offset] -= d_low;
      offset--;
  }
  accumulator[offset] -= d;\<close>
\<close>

definition borrow :: limb2_int where
  "borrow = push_bit limb_bits 1"

function acc_borrow :: "limb_int list \<Rightarrow> limb2_int \<Rightarrow> 32 word \<Rightarrow> fault + limb_int list" where
  "acc_borrow acc d offset =
     (if length acc \<le> unat offset then Inl Out_Of_Bounds
      else if ucast (acc ! unat offset) < d then
        (let d_low = (ucast d :: limb_int);
             d' = drop_bit 32 d
         in if acc ! unat offset < d_low then
              (let temp = (borrow + ucast (acc ! unat offset)) - ucast d_low
               in if drop_bit 32 temp \<noteq> 0 then Inl Assertion_Failed
                  else acc_borrow (acc[unat offset := ucast temp]) (d' + 1) (offset - 1))
            else acc_borrow (acc[unat offset := acc ! unat offset - d_low]) d' (offset - 1))
      else Inr (acc[unat offset := acc ! unat offset - ucast d]))"
  by pat_completeness auto

subsection \<open>Reading words as natural numbers\<close>

lemma unat_limb_less: "unat (a :: limb_int) < 4294967296"
  using unsigned_less[of a, where 'a=nat] by simp

lemma unat_limb2_less: "unat (a :: limb2_int) < 18446744073709551616"
  using unsigned_less[of a, where 'a=nat] by simp

lemma unat_ucast_up: "unat (ucast (a :: limb_int) :: limb2_int) = unat a"
proof -
  have "unat a < 2 ^ 64" using unat_limb_less[of a] by simp
  then show ?thesis by (simp add: unsigned_ucast_eq take_bit_nat_eq_self)
qed

lemma unat_ucast_down: "unat (ucast (d :: limb2_int) :: limb_int) = unat d mod 4294967296"
  by (simp add: unsigned_ucast_eq take_bit_eq_mod)

lemma unat_drop32: "unat (drop_bit 32 (d :: limb2_int)) = unat d div 4294967296"
  unfolding unat_drop_bit_eq by (simp add: drop_bit_eq_div)

lemma unat_add64: "unat ((d :: limb2_int) + e) = (unat d + unat e) mod 18446744073709551616"
  by (simp add: unat_word_ariths)

lemma unat_borrow: "unat borrow = 4294967296"
  by (simp add: borrow_def limb_bits_def)

lemma limb_eq_max_iff: "(a :: limb_int) = - 1 \<longleftrightarrow> unat a = 4294967295"
  by (simp add: word_unat_eq_iff unsigned_minus_1_eq_mask mask_eq_exp_minus_1)

lemma limb_eq_0_iff: "(a :: limb_int) = 0 \<longleftrightarrow> unat a = 0"
  by (simp add: unat_eq_zero)

subsection \<open>Both loops of accumulate terminate\<close>

lemma filter_update_less:
  "i < length xs \<Longrightarrow> P (xs ! i) \<Longrightarrow> \<not> P v \<Longrightarrow>
   length (filter P (xs[i := v])) < length (filter P xs)"
proof (induction xs arbitrary: i)
  case Nil
  then show ?case by simp
next
  case (Cons x xs)
  show ?case
  proof (cases i)
    case 0
    with Cons.prems show ?thesis by simp
  next
    case (Suc j)
    with Cons.prems Cons.IH[of j] show ?thesis by simp
  qed
qed

lemma carry_step_nat:
  fixes d :: limb2_int and a :: limb_int
  assumes "d \<noteq> 0"
  shows "unat (drop_bit 32 (d + ucast a)) < unat d \<or>
         (unat (drop_bit 32 (d + ucast a)) = unat d \<and> a = - 1 \<and>
          (ucast (d + ucast a) :: limb_int) \<noteq> - 1)"
proof -
  define D where "D = unat d"
  define A where "A = unat a"
  have D: "0 < D" "D < 18446744073709551616"
    using assms unat_limb2_less[of d] by (auto simp: D_def unat_gt_0)
  have A: "A < 4294967296"
    using unat_limb_less[of a] by (simp add: A_def)
  have q: "unat (drop_bit 32 (d + ucast a)) = ((D + A) mod 18446744073709551616) div 4294967296"
    by (simp add: unat_drop32 unat_add64 unat_ucast_up D_def A_def)
  have r: "unat (ucast (d + ucast a) :: limb_int) = ((D + A) mod 18446744073709551616) mod 4294967296"
    by (simp add: unat_ucast_down unat_add64 unat_ucast_up D_def A_def)
  show ?thesis
  proof (cases "D = 1 \<and> A = 4294967295")
    case True
    then have "a = - 1"
      by (simp add: A_def limb_eq_max_iff)
    moreover have "unat (ucast (d + ucast a) :: limb_int) = 0"
      using True r by simp
    then have "(ucast (d + ucast a) :: limb_int) \<noteq> - 1"
      by (simp add: limb_eq_max_iff)
    moreover have "unat (drop_bit 32 (d + ucast a)) = unat d"
      using True q D_def by simp
    ultimately show ?thesis by simp
  next
    case False
    have "((D + A) mod 18446744073709551616) div 4294967296 < D"
      using D A False by (cases "D + A < 18446744073709551616") (auto simp: mod_if)
    then show ?thesis using q D_def by simp
  qed
qed

termination acc_carry
proof (relation "measures [\<lambda>(acc, d, offset). unat d,
                           \<lambda>(acc, d, offset). length (filter (\<lambda>x. x = - 1) acc)]")
  show "wf (measures [\<lambda>(acc :: limb_int list, d :: limb2_int, offset :: 32 word). unat d,
                      \<lambda>(acc, d, offset). length (filter (\<lambda>x. x = - 1) acc)])"
    by simp
next
  fix acc :: "limb_int list" and d :: limb2_int and offset :: "32 word" and d1 :: limb2_int
  assume "d \<noteq> 0" "\<not> length acc \<le> unat offset" "d1 = d + ucast (acc ! unat offset)"
  then show "((acc[unat offset := ucast d1], drop_bit 32 d1, offset - 1), acc, d, offset)
      \<in> measures [\<lambda>(acc, d, offset). unat d,
                   \<lambda>(acc, d, offset). length (filter (\<lambda>x. x = - 1) acc)]"
    using carry_step_nat[of d "acc ! unat offset"]
    by (auto simp: filter_update_less)
qed

lemma borrow_step_nat:
  fixes d :: limb2_int and a :: limb_int
  assumes "a < ucast d"
  shows "unat (drop_bit 32 d + 1) < unat d \<or>
         (unat (drop_bit 32 d + 1) = unat d \<and> a = 0 \<and>
          (ucast ((borrow + ucast a) - ucast (ucast d :: limb_int)) :: limb_int) \<noteq> 0)"
proof -
  define D where "D = unat d"
  define A where "A = unat a"
  have D: "D < 18446744073709551616"
    using unat_limb2_less[of d] by (simp add: D_def)
  have lt: "A < D mod 4294967296"
    using assms by (simp add: word_less_nat_alt unat_ucast_down A_def D_def)
  have q: "unat (drop_bit 32 d + 1) = D div 4294967296 + 1"
  proof -
    have "D div 4294967296 + 1 < 18446744073709551616" using D by simp
    then show ?thesis by (simp add: unat_add64 unat_drop32 D_def)
  qed
  show ?thesis
  proof (cases "D = 1")
    case True
    then have A0: "A = 0" using lt by simp
    then have a0: "a = 0" by (simp add: A_def limb_eq_0_iff)
    have "unat ((borrow + ucast a) - ucast (ucast d :: limb_int)) = 4294967295"
      using True a0 by (simp add: unat_sub_if' unat_add64 unat_borrow unat_ucast_up unat_ucast_down D_def)
    then have "unat (ucast ((borrow + ucast a) - ucast (ucast d :: limb_int)) :: limb_int) = 4294967295"
      by (simp add: unat_ucast_down)
    then have "(ucast ((borrow + ucast a) - ucast (ucast d :: limb_int)) :: limb_int) \<noteq> 0"
      by (simp add: limb_eq_0_iff)
    with True a0 q show ?thesis by (simp add: D_def)
  next
    case False
    have "D div 4294967296 + 1 < D"
      using lt False by (cases "D < 4294967296") auto
    then show ?thesis using q by (simp add: D_def)
  qed
qed

lemma drop_step_nat:
  fixes d :: limb2_int
  assumes "d \<noteq> 0"
  shows "unat (drop_bit 32 d) < unat d"
  using assms by (simp add: unat_drop32 unat_gt_0)

termination acc_borrow
proof (relation "measures [\<lambda>(acc, d, offset). unat d,
                           \<lambda>(acc, d, offset). length (filter (\<lambda>x. x = 0) acc)]")
  show "wf (measures [\<lambda>(acc :: limb_int list, d :: limb2_int, offset :: 32 word). unat d,
                      \<lambda>(acc, d, offset). length (filter (\<lambda>x. x = 0) acc)])"
    by simp
next
  fix acc :: "limb_int list" and d :: limb2_int and offset :: "32 word"
    and d_low :: limb_int and d' temp :: limb2_int
  assume "\<not> length acc \<le> unat offset" "d_low = ucast d" "d' = drop_bit 32 d"
    "acc ! unat offset < d_low" "temp = borrow + ucast (acc ! unat offset) - ucast d_low"
  then show "((acc[unat offset := ucast temp], d' + 1, offset - 1), acc, d, offset)
      \<in> measures [\<lambda>(acc, d, offset). unat d,
                   \<lambda>(acc, d, offset). length (filter (\<lambda>x. x = 0) acc)]"
    using borrow_step_nat[of "acc ! unat offset" d]
    by (auto simp: filter_update_less)
next
  fix acc :: "limb_int list" and d :: limb2_int and offset :: "32 word"
    and d_low :: limb_int and d' :: limb2_int
  assume "ucast (acc ! unat offset) < d" "d' = drop_bit 32 d"
  moreover from this have "d \<noteq> 0" by auto
  ultimately show "((acc[unat offset := acc ! unat offset - d_low], d', offset - 1), acc, d, offset)
      \<in> measures [\<lambda>(acc, d, offset). unat d,
                   \<lambda>(acc, d, offset). length (filter (\<lambda>x. x = 0) acc)]"
    using drop_step_nat[of d] by simp
qed

text \<open>
  \<open>accumulate(delta, offset)\<close>.  The negation \<open>-delta\<close> is the two's-complement one of the
  64-bit machine, so the most negative \<open>delta\<close> gives \<open>d = 2^63\<close>, its magnitude.
\<close>

definition accumulate :: "limb_int list \<Rightarrow> limb2_int_signed \<Rightarrow> 32 word \<Rightarrow> fault + limb_int list" where
  "accumulate acc delta offset =
     (if delta <s 0 then acc_borrow acc (- delta) offset
      else acc_carry acc delta offset)"

section \<open>The value of a limb vector\<close>

text \<open>
  A vector of limbs read as a base-\<open>2^32\<close> natural number, limb 0 the most significant.
\<close>

definition limbs_val :: "limb_int list \<Rightarrow> nat" where
  "limbs_val xs = foldl (\<lambda>v x. v * 4294967296 + unat x) 0 xs"

lemma limbs_val_Nil [simp]: "limbs_val [] = 0"
  by (simp add: limbs_val_def)

lemma limbs_val_snoc [simp]: "limbs_val (xs @ [x]) = limbs_val xs * 4294967296 + unat x"
  by (simp add: limbs_val_def)

lemma limbs_val_append:
  "limbs_val (xs @ ys) = limbs_val xs * 4294967296 ^ length ys + limbs_val ys"
proof (induction ys rule: rev_induct)
  case Nil
  then show ?case by simp
next
  case (snoc y ys)
  have "limbs_val (xs @ ys @ [y]) = limbs_val ((xs @ ys) @ [y])" by simp
  also have "\<dots> = limbs_val (xs @ ys) * 4294967296 + unat y" by (rule limbs_val_snoc)
  finally show ?case using snoc.IH by (simp add: algebra_simps)
qed

lemma limbs_val_take_Suc:
  "n < length xs \<Longrightarrow> limbs_val (take (Suc n) xs) = limbs_val (take n xs) * 4294967296 + unat (xs ! n)"
  by (simp add: take_Suc_conv_app_nth)

lemma acc_carry_correct:
  "unat offset = n \<Longrightarrow> n < length acc \<Longrightarrow> unat d < 9223372036854775808 \<Longrightarrow>
   limbs_val (take (Suc n) acc) + unat d < 4294967296 ^ Suc n \<Longrightarrow>
   \<exists>acc'. acc_carry acc d offset = Inr acc' \<and> length acc' = length acc \<and>
          (\<forall>i. n < i \<longrightarrow> acc' ! i = acc ! i) \<and>
          limbs_val (take (Suc n) acc') = limbs_val (take (Suc n) acc) + unat d"
proof (induction n arbitrary: acc d offset)
  case 0
  show ?case
  proof (cases "d = 0")
    case True
    then show ?thesis by simp
  next
    case False
    define a where "a = acc ! 0"
    define d1 where "d1 = d + ucast a"
    have sm: "unat a + unat d < 4294967296"
      using 0 by (simp add: limbs_val_take_Suc a_def)
    have u1: "unat d1 = unat d + unat a"
      using sm by (simp add: d1_def unat_add64 unat_ucast_up)
    have z: "drop_bit 32 d1 = 0"
      using sm u1 by (simp add: word_unat_eq_iff unat_drop32)
    have "acc_carry acc d offset = acc_carry (acc[0 := ucast d1]) 0 (offset - 1)"
      using False 0 z by (subst acc_carry.simps) (simp add: Let_def d1_def a_def)
    also have "\<dots> = Inr (acc[0 := ucast d1])" by simp
    finally have r: "acc_carry acc d offset = Inr (acc[0 := ucast d1])" .
    have "unat (ucast d1 :: limb_int) = unat d + unat a"
      using sm u1 by (simp add: unat_ucast_down)
    then have "limbs_val (take (Suc 0) (acc[0 := ucast d1])) = limbs_val (take (Suc 0) acc) + unat d"
      using 0 by (simp add: limbs_val_take_Suc a_def)
    then show ?thesis using r by simp
  qed
next
  case (Suc m)
  show ?case
  proof (cases "d = 0")
    case True
    then show ?thesis by simp
  next
    case False
    define n where "n = Suc m"
    define a where "a = acc ! n"
    define d1 where "d1 = d + ucast a"
    define acc1 where "acc1 = acc[n := ucast d1]"
    define V where "V = limbs_val (take n acc)"
    have n: "unat offset = n" "n < length acc" using Suc.prems by (simp_all add: n_def)
    have A: "unat a < 4294967296" by (rule unat_limb_less)
    have u1: "unat d1 = unat d + unat a"
      using Suc.prems(3) A by (simp add: d1_def unat_add64 unat_ucast_up)
    have o1: "unat (offset - 1) = m"
      using n by (simp add: n_def unat_minus_one unat_gt_0 flip: unat_eq_zero)
    have tk: "limbs_val (take (Suc n) acc) = V * 4294967296 + unat a"
      using n by (simp add: limbs_val_take_Suc V_def a_def)
    have bound: "V * 4294967296 + unat a + unat d < 4294967296 * 4294967296 ^ n"
      using Suc.prems(4) tk by (simp add: n_def)
    have c: "V + unat (drop_bit 32 d1) < 4294967296 ^ Suc m"
    proof -
      have "(V * 4294967296 + (unat a + unat d)) div 4294967296 < 4294967296 ^ n"
        using bound by (simp add: less_mult_imp_div_less mult.commute add.assoc)
      then show ?thesis by (simp add: unat_drop32 u1 n_def add.commute)
    qed
    have dd: "unat (drop_bit 32 d1) < 9223372036854775808"
      using unat_limb2_less[of d1] by (simp add: unat_drop32)
    have tk1: "take (Suc m) acc1 = take n acc"
      by (simp add: acc1_def n_def)
    from Suc.IH[of "offset - 1" acc1 "drop_bit 32 d1"] o1 n dd c tk1
    obtain acc' where r: "acc_carry acc1 (drop_bit 32 d1) (offset - 1) = Inr acc'"
      and len: "length acc' = length acc"
      and same: "\<forall>i. m < i \<longrightarrow> acc' ! i = acc1 ! i"
      and val: "limbs_val (take (Suc m) acc') = V + unat (drop_bit 32 d1)"
      by (auto simp: acc1_def n_def V_def)
    have "acc_carry acc d offset = acc_carry acc1 (drop_bit 32 d1) (offset - 1)"
      using False n by (subst acc_carry.simps) (simp add: Let_def d1_def a_def acc1_def)
    with r have r': "acc_carry acc d offset = Inr acc'" by simp
    have an: "acc' ! n = ucast d1"
      using same n by (simp add: n_def acc1_def)
    have "limbs_val (take (Suc n) acc') = limbs_val (take n acc') * 4294967296 + unat (acc' ! n)"
      using n len by (simp add: limbs_val_take_Suc)
    also have "\<dots> = (V + unat d1 div 4294967296) * 4294967296 + unat d1 mod 4294967296"
      using val an by (simp add: n_def unat_drop32 unat_ucast_down)
    also have "\<dots> = V * 4294967296 + unat d1"
      by (simp add: algebra_simps)
    finally have "limbs_val (take (Suc n) acc') = limbs_val (take (Suc n) acc) + unat d"
      using tk u1 by simp
    moreover have "\<forall>i. n < i \<longrightarrow> acc' ! i = acc ! i"
      using same by (auto simp: acc1_def n_def)
    ultimately show ?thesis using r' len by (simp add: n_def)
  qed
qed


lemma acc_borrow_correct:
  "unat offset = n \<Longrightarrow> n < length acc \<Longrightarrow>
   unat d \<le> limbs_val (take (Suc n) acc) \<Longrightarrow>
   \<exists>acc'. acc_borrow acc d offset = Inr acc' \<and> length acc' = length acc \<and>
          (\<forall>i. n < i \<longrightarrow> acc' ! i = acc ! i) \<and>
          limbs_val (take (Suc n) acc') + unat d = limbs_val (take (Suc n) acc)"
proof (induction n arbitrary: acc d offset)
  case 0
  define a where "a = acc ! 0"
  have le: "unat d \<le> unat a"
    using 0 by (simp add: limbs_val_take_Suc a_def)
  then have nlt: "\<not> ucast a < d"
    by (simp add: word_less_nat_alt unat_ucast_up)
  have ud: "unat (ucast d :: limb_int) = unat d"
    using le unat_limb_less[of a] by (simp add: unat_ucast_down)
  have r: "acc_borrow acc d offset = Inr (acc[0 := a - ucast d])"
    using 0 nlt by (subst acc_borrow.simps) (simp add: a_def)
  have "unat (a - ucast d) = unat a - unat d"
    using le ud by (simp add: unat_sub_if')
  then have "limbs_val (take (Suc 0) (acc[0 := a - ucast d])) + unat d = limbs_val (take (Suc 0) acc)"
    using 0 le by (simp add: limbs_val_take_Suc a_def)
  then show ?case using r by simp
next
  case (Suc m)
  define n where "n = Suc m"
  define a where "a = acc ! n"
  define V where "V = limbs_val (take n acc)"
  define dl where "dl = (ucast d :: limb_int)"
  define dh where "dh = drop_bit 32 d"
  have n: "unat offset = n" "n < length acc" using Suc.prems by (simp_all add: n_def)
  have A: "unat a < 4294967296" by (rule unat_limb_less)
  have o1: "unat (offset - 1) = m"
    using n by (simp add: n_def unat_minus_one unat_gt_0 flip: unat_eq_zero)
  have tk: "limbs_val (take (Suc n) acc) = V * 4294967296 + unat a"
    using n by (simp add: limbs_val_take_Suc V_def a_def)
  have le: "unat d \<le> V * 4294967296 + unat a"
    using Suc.prems(3) tk by (simp add: n_def)
  have udl: "unat dl = unat d mod 4294967296" by (simp add: dl_def unat_ucast_down)
  have udh: "unat dh = unat d div 4294967296" by (simp add: dh_def unat_drop32)
  have split: "unat d = unat dh * 4294967296 + unat dl" by (simp add: udl udh)
  show ?case
  proof (cases "ucast a < d")
    case False
    then have le': "unat d \<le> unat a"
      by (simp add: word_less_nat_alt unat_ucast_up)
    have ud: "unat (ucast d :: limb_int) = unat d"
      using le' A by (simp add: unat_ucast_down)
    have r: "acc_borrow acc d offset = Inr (acc[n := a - ucast d])"
      using n False by (subst acc_borrow.simps) (simp add: a_def)
    have "unat (a - ucast d) = unat a - unat d"
      using le' ud by (simp add: unat_sub_if')
    then have "limbs_val (take (Suc n) (acc[n := a - ucast d])) + unat d = limbs_val (take (Suc n) acc)"
      using n le' by (simp add: limbs_val_take_Suc a_def)
    then show ?thesis using r by (simp add: n_def)
  next
    case True
    show ?thesis
    proof (cases "a < dl")
      case True
      note brw = this
      then have lt: "unat a < unat dl" by (simp add: word_less_nat_alt)
      define temp where "temp = (borrow + ucast a) - ucast dl"
      define acc1 where "acc1 = acc[n := ucast temp]"
      have ut: "unat temp = 4294967296 + unat a - unat dl"
        using lt A unat_limb_less[of dl]
        by (simp add: temp_def unat_sub_if' unat_add64 unat_borrow unat_ucast_up)
      have tz: "drop_bit 32 temp = 0"
        using ut lt by (simp add: word_unat_eq_iff unat_drop32)
      have udh1: "unat (dh + 1) = unat dh + 1"
        using unat_limb2_less[of d] by (simp add: unat_add64 udh)
      have c: "unat (dh + 1) \<le> V"
      proof -
        have "unat dh * 4294967296 + unat dl \<le> V * 4294967296 + unat a"
          using le split by simp
        with lt have "unat dh * 4294967296 < V * 4294967296" by linarith
        then show ?thesis using udh1 by simp
      qed
      have tk1: "take (Suc m) acc1 = take n acc"
        by (simp add: acc1_def n_def)
      from Suc.IH[of "offset - 1" acc1 "dh + 1"] o1 n c tk1
      obtain acc' where r: "acc_borrow acc1 (dh + 1) (offset - 1) = Inr acc'"
        and len: "length acc' = length acc"
        and same: "\<forall>i. m < i \<longrightarrow> acc' ! i = acc1 ! i"
        and val: "limbs_val (take (Suc m) acc') + unat (dh + 1) = V"
        by (auto simp: acc1_def n_def V_def)
      have "acc_borrow acc d offset = acc_borrow acc1 (dh + 1) (offset - 1)"
        using \<open>ucast a < d\<close> brw tz n
        by (subst acc_borrow.simps)
           (simp add: Let_def a_def acc1_def temp_def dl_def dh_def)
      with r have r': "acc_borrow acc d offset = Inr acc'" by simp
      have an: "unat (acc' ! n) = 4294967296 + unat a - unat dl"
        using same n ut lt by (simp add: n_def acc1_def unat_ucast_down)
      have "limbs_val (take (Suc n) acc') = limbs_val (take n acc') * 4294967296 + unat (acc' ! n)"
        using n len by (simp add: limbs_val_take_Suc)
      moreover have "unat (acc' ! n) + unat dl = 4294967296 + unat a"
        using an unat_limb_less[of dl] by simp
      ultimately have "limbs_val (take (Suc n) acc') + unat d
          = (limbs_val (take (Suc m) acc') + unat (dh + 1)) * 4294967296 + unat a"
        using split udh1 by (simp add: n_def algebra_simps)
      then have "limbs_val (take (Suc n) acc') + unat d = limbs_val (take (Suc n) acc)"
        using val tk by simp
      moreover have "\<forall>i. n < i \<longrightarrow> acc' ! i = acc ! i"
        using same by (auto simp: acc1_def n_def)
      ultimately show ?thesis using r' len by (simp add: n_def)
    next
      case False
      note nbrw = this
      then have ge: "unat dl \<le> unat a" by (simp add: word_less_nat_alt)
      define acc1 where "acc1 = acc[n := a - dl]"
      have c: "unat dh \<le> V"
      proof (rule ccontr)
        assume "\<not> unat dh \<le> V"
        then have "(V + 1) * 4294967296 \<le> unat dh * 4294967296" by simp
        with le split A show False by simp
      qed
      have tk1: "take (Suc m) acc1 = take n acc"
        by (simp add: acc1_def n_def)
      from Suc.IH[of "offset - 1" acc1 dh] o1 n c tk1
      obtain acc' where r: "acc_borrow acc1 dh (offset - 1) = Inr acc'"
        and len: "length acc' = length acc"
        and same: "\<forall>i. m < i \<longrightarrow> acc' ! i = acc1 ! i"
        and val: "limbs_val (take (Suc m) acc') + unat dh = V"
        by (auto simp: acc1_def n_def V_def)
      have "acc_borrow acc d offset = acc_borrow acc1 dh (offset - 1)"
        using \<open>ucast a < d\<close> nbrw n
        by (subst acc_borrow.simps)
           (simp add: Let_def a_def acc1_def dl_def dh_def)
      with r have r': "acc_borrow acc d offset = Inr acc'" by simp
      have an: "unat (acc' ! n) = unat a - unat dl"
        using same n ge by (simp add: n_def acc1_def unat_sub_if')
      have "limbs_val (take (Suc n) acc') = limbs_val (take n acc') * 4294967296 + unat (acc' ! n)"
        using n len by (simp add: limbs_val_take_Suc)
      moreover have "unat (acc' ! n) + unat dl = unat a"
        using an ge by simp
      ultimately have "limbs_val (take (Suc n) acc') + unat d
          = (limbs_val (take (Suc m) acc') + unat dh) * 4294967296 + unat a"
        using split by (simp add: n_def algebra_simps)
      then have "limbs_val (take (Suc n) acc') + unat d = limbs_val (take (Suc n) acc)"
        using val tk by simp
      moreover have "\<forall>i. n < i \<longrightarrow> acc' ! i = acc ! i"
        using same by (auto simp: acc1_def n_def)
      ultimately show ?thesis using r' len by (simp add: n_def)
    qed
  qed
qed

lemma uint_sint64: "uint (w :: 64 word) = sint w mod 18446744073709551616"
  using uint_sint[of w] by (simp add: take_bit_eq_mod)

lemma sint64_bounds: "- 9223372036854775808 \<le> sint (w :: 64 word)" "sint w < 9223372036854775808"
  using sint_ge[of w] sint_lt[of w] by simp_all

lemma nonneg_delta_unat: "\<not> (delta :: 64 word) <s 0 \<Longrightarrow> int (unat delta) = sint delta"
proof -
  assume "\<not> delta <s 0"
  then have "0 \<le> sint delta" by (simp add: word_sless_alt)
  then have "sint delta mod 18446744073709551616 = sint delta"
    using sint64_bounds(2)[of delta] by simp
  then show ?thesis using uint_sint64[of delta] by simp
qed

lemma neg_delta_unat: "(delta :: 64 word) <s 0 \<Longrightarrow> int (unat (- delta)) = - sint delta"
proof -
  assume "delta <s 0"
  then have neg: "sint delta < 0" by (simp add: word_sless_alt)
  have "uint (- delta) = (- uint delta) mod 18446744073709551616"
    by (simp add: uint_word_ariths)
  also have "\<dots> = (- sint delta) mod 18446744073709551616"
    unfolding uint_sint64 by (simp add: mod_minus_eq)
  also have "\<dots> = - sint delta"
    using neg sint64_bounds(1)[of delta] by simp
  finally show ?thesis by simp
qed

subsection \<open>accumulate adds the signed delta at its offset\<close>

lemma limbs_val_split:
  "limbs_val xs = limbs_val (take k xs) * 4294967296 ^ (length xs - k) + limbs_val (drop k xs)"
  using limbs_val_append[of "take k xs" "drop k xs"] by simp

lemma drop_eqI:
  "length ys = length xs \<Longrightarrow> (\<forall>i. n < i \<longrightarrow> ys ! i = xs ! i) \<Longrightarrow> drop (Suc n) ys = drop (Suc n) xs"
  by (rule nth_equalityI) auto

lemma borrow_temp_top_zero:
  fixes a dl :: limb_int
  assumes "a < dl"
  shows "drop_bit 32 ((borrow + ucast a) - ucast dl) = 0"
proof -
  have lt: "unat a < unat dl" using assms by (simp add: word_less_nat_alt)
  have "unat ((borrow + ucast a) - ucast dl) = 4294967296 + unat a - unat dl"
    using lt unat_limb_less[of a] unat_limb_less[of dl]
    by (simp add: unat_sub_if' unat_add64 unat_borrow unat_ucast_up)
  then show ?thesis using lt by (simp add: word_unat_eq_iff unat_drop32)
qed

lemma acc_borrow_no_assert: "acc_borrow acc d offset \<noteq> Inl Assertion_Failed"
proof (induction acc d offset rule: acc_borrow.induct)
  case (1 acc d offset)
  show ?case
  proof (cases "length acc \<le> unat offset")
    case True
    then show ?thesis by (subst acc_borrow.simps) simp
  next
    case inb: False
    show ?thesis
    proof (cases "ucast (acc ! unat offset) < d")
      case False
      with inb show ?thesis by (subst acc_borrow.simps) simp
    next
      case lt: True
      show ?thesis
      proof (cases "acc ! unat offset < ucast d")
        case True
        with inb lt "1.IH"(1)[OF inb lt refl refl True refl] borrow_temp_top_zero[OF True]
        show ?thesis by (subst acc_borrow.simps) (simp add: Let_def)
      next
        case False
        with inb lt "1.IH"(2)[OF inb lt refl refl False]
        show ?thesis by (subst acc_borrow.simps) (simp add: Let_def)
      qed
    qed
  qed
qed

text \<open>
  Claim C3.  For an accumulator \<open>acc\<close> of \<open>L\<close> limbs, a signed double-limb \<open>delta\<close> and an
  offset below \<open>L\<close>: when a negative \<open>delta\<close> is no larger in magnitude than the value of
  limbs \<open>0..offset\<close>, and a non-negative one does not carry out of limb 0, \<open>accumulate\<close>
  returns (every access in bounds, the assertion never fails), keeps the length, and
  changes the value of the accumulator, read as a base-\<open>2^32\<close> integer with limb 0 the most
  significant, by exactly \<open>delta * 2^(32 * (L - 1 - offset))\<close>.  The assertion of the borrow
  branch holds in every call, whatever the arguments.
\<close>

theorem accumulate_adds_delta:
  assumes "unat offset < length acc"
    and "delta <s 0 \<Longrightarrow> - sint delta \<le> int (limbs_val (take (Suc (unat offset)) acc))"
    and "\<not> delta <s 0 \<Longrightarrow>
           int (limbs_val (take (Suc (unat offset)) acc)) + sint delta < 2 ^ (limb_bits * Suc (unat offset))"
  shows "(\<exists>acc'. accumulate acc delta offset = Inr acc' \<and> length acc' = length acc \<and>
            int (limbs_val acc') =
              int (limbs_val acc) + sint delta * 2 ^ (limb_bits * (length acc - 1 - unat offset))) \<and>
         (\<forall>a d k. acc_borrow a d k \<noteq> Inl Assertion_Failed)"
proof -
  define n where "n = unat offset"
  define k where "k = length acc - Suc n"
  have pw: "(4294967296 :: nat) ^ m = 2 ^ (limb_bits * m)" for m
    by (simp add: limb_bits_def power_mult)
  have pwi: "(4294967296 :: int) ^ m = 2 ^ (limb_bits * m)" for m
    by (simp add: limb_bits_def power_mult)
  have "\<exists>acc'. accumulate acc delta offset = Inr acc' \<and> length acc' = length acc \<and>
          int (limbs_val acc') = int (limbs_val acc) + sint delta * 4294967296 ^ k"
  proof (cases "delta <s 0")
    case True
    have "int (unat (- delta)) \<le> int (limbs_val (take (Suc n) acc))"
      using assms(2)[OF True] neg_delta_unat[OF True] by (simp add: n_def)
    then have "unat (- delta) \<le> limbs_val (take (Suc n) acc)" by linarith
    from acc_borrow_correct[OF n_def[symmetric] _ this] assms(1)
    obtain acc' where r: "acc_borrow acc (- delta) offset = Inr acc'"
      and len: "length acc' = length acc"
      and same: "\<forall>i. n < i \<longrightarrow> acc' ! i = acc ! i"
      and val: "limbs_val (take (Suc n) acc') + unat (- delta) = limbs_val (take (Suc n) acc)"
      by (auto simp: n_def)
    have dr: "drop (Suc n) acc' = drop (Suc n) acc"
      using len same by (rule drop_eqI)
    have "int (limbs_val (take (Suc n) acc')) = int (limbs_val (take (Suc n) acc)) + sint delta"
      using val neg_delta_unat[OF True] by linarith
    then have "int (limbs_val acc') = int (limbs_val acc) + sint delta * 4294967296 ^ k"
      using limbs_val_split[of acc' "Suc n"] limbs_val_split[of acc "Suc n"] dr len
      by (simp add: k_def algebra_simps)
    then show ?thesis using r len True by (auto simp: accumulate_def)
  next
    case False
    have nn: "int (unat delta) = sint delta" using False by (rule nonneg_delta_unat)
    have b63: "unat delta < 9223372036854775808"
      using nn sint64_bounds(2)[of delta] by linarith
    have "int (limbs_val (take (Suc n) acc) + unat delta) < int (4294967296 ^ Suc n)"
      using assms(3)[OF False] nn pwi[of "Suc n"] by (simp add: n_def)
    then have "limbs_val (take (Suc n) acc) + unat delta < 4294967296 ^ Suc n" by linarith
    from acc_carry_correct[OF n_def[symmetric] _ b63 this] assms(1)
    obtain acc' where r: "acc_carry acc delta offset = Inr acc'"
      and len: "length acc' = length acc"
      and same: "\<forall>i. n < i \<longrightarrow> acc' ! i = acc ! i"
      and val: "limbs_val (take (Suc n) acc') = limbs_val (take (Suc n) acc) + unat delta"
      by (auto simp: n_def)
    have dr: "drop (Suc n) acc' = drop (Suc n) acc"
      using len same by (rule drop_eqI)
    have "int (limbs_val (take (Suc n) acc')) = int (limbs_val (take (Suc n) acc)) + sint delta"
      using val nn by linarith
    then have "int (limbs_val acc') = int (limbs_val acc) + sint delta * 4294967296 ^ k"
      using limbs_val_split[of acc' "Suc n"] limbs_val_split[of acc "Suc n"] dr len
      by (simp add: k_def algebra_simps)
    then show ?thesis using r len False by (auto simp: accumulate_def)
  qed
  moreover have "k = length acc - 1 - unat offset" by (simp add: k_def n_def)
  ultimately show ?thesis using acc_borrow_no_assert pwi by simp
qed

theorem accumulate_adds_delta_witness:
  "unat (2 :: 32 word) < length [1, 0, 3 :: limb_int] \<and>
   (- 5 :: 64 word) <s 0 \<and>
   - sint (- 5 :: 64 word) \<le> int (limbs_val (take (Suc (unat (2 :: 32 word))) [1, 0, 3])) \<and>
   accumulate [1, 0, 3] (- 5) 2 = Inr [0, 4294967295, 4294967294] \<and>
   int (limbs_val [0, 4294967295, 4294967294]) = int (limbs_val [1, 0, 3]) + sint (- 5 :: 64 word) * 2 ^ (limb_bits * (length [1, 0, 3 :: limb_int] - 1 - unat (2 :: 32 word)))"
  using accumulate_adds_delta[of 2 "[1, 0, 3]" "- 5"]
  by (simp add: limbs_val_def accumulate_def word_sless_alt borrow_def limb_bits_def)

section \<open>Parsing the command line\<close>

definition isspace_c :: "char \<Rightarrow> bool" where
  "isspace_c c = (of_char c \<in> {9, 10, 11, 12, 13, 32 :: nat})"

definition isdigit_c :: "char \<Rightarrow> bool" where
  "isdigit_c c = (48 \<le> (of_char c :: nat) \<and> (of_char c :: nat) \<le> 57)"

definition digit_value :: "char \<Rightarrow> nat" where
  "digit_value c = of_char c - 48"

definition decimal_value :: "string \<Rightarrow> nat" where
  "decimal_value ds = foldl (\<lambda>v c. 10 * v + digit_value c) 0 ds"

definition ulong_max :: nat where
  "ulong_max = 18446744073709551615"

definition stoul :: "string \<Rightarrow> fault + 64 word" where
  "stoul str =
     (let s1 = dropWhile isspace_c str;
          neg = (s1 \<noteq> [] \<and> hd s1 = CHR ''-'');
          s2 = (if s1 \<noteq> [] \<and> (hd s1 = CHR ''-'' \<or> hd s1 = CHR ''+'') then tl s1 else s1);
          ds = takeWhile isdigit_c s2
      in if ds = [] then Inl Uncaught_Exception
         else if ulong_max < decimal_value ds then Inl Uncaught_Exception
         else Inr (if neg then - of_nat (decimal_value ds) else of_nat (decimal_value ds)))"

record params =
  precision :: "64 word"
  pi_d :: "64 word"
  multipliers :: "limb_int list"
  args :: "limb_int list"
  arg_sq :: "limb_int list"

fun read_terms ::
  "string list \<Rightarrow> limb_int list \<times> limb_int list \<times> limb_int list \<Rightarrow>
   fault + limb_int list \<times> limb_int list \<times> limb_int list" where
  "read_terms [] acc = Inr acc"
| "read_terms (sm # rest) (ms, as, sqs) =
     (case stoul sm of
        Inl e \<Rightarrow> Inl e
      | Inr n \<Rightarrow>
          if limb_max < n then Inl (Usage_Exit 1)
          else (case rest of
                  [] \<Rightarrow> Inl (Usage_Exit 1)
                | sa # rest' \<Rightarrow>
                    (case stoul sa of
                       Inl e \<Rightarrow> Inl e
                     | Inr n' \<Rightarrow>
                         if arg_max < n' then Inl (Usage_Exit 1)
                         else read_terms rest'
                                (ms @ [ucast n], as @ [ucast n'], sqs @ [ucast (n' * n')]))))"

definition read_parameters :: "string list \<Rightarrow> fault + params" where
  "read_parameters argv =
     (case argv of
        [] \<Rightarrow> Inl (Usage_Exit 1)
      | [_] \<Rightarrow> Inl (Usage_Exit 1)
      | _ # sp # rest \<Rightarrow>
          (case stoul sp of
             Inl e \<Rightarrow> Inl e
           | Inr p \<Rightarrow>
               if p < 1 then Inl (Usage_Exit 1)
               else (case rest of
                       [] \<Rightarrow> Inl Null_Argument
                     | sd # terms \<Rightarrow>
                         (case stoul sd of
                            Inl e \<Rightarrow> Inl e
                          | Inr d \<Rightarrow>
                              if d = 0 then Inl (Usage_Exit 1)
                              else (case read_terms terms ([], [], []) of
                                      Inl e \<Rightarrow> Inl e
                                    | Inr (ms, as, sqs) \<Rightarrow>
                                        if as = [] then Inl (Usage_Exit 1)
                                        else Inr \<lparr>precision = p, pi_d = d, multipliers = ms,
                                                  args = as, arg_sq = sqs\<rparr>)))))"

section \<open>Program state\<close>

record remainder_block =
  arg_count :: "32 word"
  remainders :: "limb_int list"

record state = params +
  accumulator :: "limb_int list"
  quotents :: "limb_int list"
  remainder_column :: "remainder_block list"
  block_digit_offset :: "32 word"
  block_divisor_offset :: "32 word"

definition fractional_size :: "64 word \<Rightarrow> 64 word" where
  "fractional_size prec =
     (if prec mod ucast block_width = 0 then prec
      else (prec div ucast block_width + 1) * ucast block_width)"

function seed_quotents :: "params \<Rightarrow> nat \<Rightarrow> limb_int list \<Rightarrow> fault + limb_int list" where
  "seed_quotents p i q =
     (if i < length (args p) then
        (if length (multipliers p) \<le> i then Inl Out_Of_Bounds
         else let n = ucast (args p ! i) * ucast (multipliers p ! i) * pi_d p;
                  lo = unat (block_width - 1) * length (args p) + i;
                  hi = unat (block_width - 2) * length (args p) + i
              in if length q \<le> lo \<or> length q \<le> hi then Inl Out_Of_Bounds
                 else seed_quotents p (i + 1) (q[lo := ucast n, hi := ucast (drop_bit limb_bits n)]))
      else Inr q)"
  by pat_completeness auto
termination
  by (relation "measure (\<lambda>(p, i, q). length (args p) - i)") auto

text \<open>
  \<open>accumulator.assign(fractional_size + block_width, 0)\<close> is the first statement that
  allocates, and the only one whose size comes from a number on the command line.
  \<open>std::vector::assign\<close> throws \<open>std::length_error\<close> for a size above \<open>max_size()\<close>, which for
  a vector of 4-byte limbs on LP64 is \<open>PTRDIFF_MAX / sizeof(limb_int)\<close>; nothing catches it, so
  the run ends before \<open>quotents\<close> is seeded.  The sum is taken in \<open>size_t\<close> and wraps.  An
  allocation of at most \<open>max_size()\<close> limbs is taken to succeed.  The size of \<open>quotents\<close> is
  \<open>block_width\<close> times the number of terms on the command line.
\<close>

definition vector_max_size :: nat where
  "vector_max_size = (2 ^ 63 - 1) div 4"

definition initialize_variables :: "params \<Rightarrow> fault + state" where
  "initialize_variables p =
     (if vector_max_size < unat (fractional_size (precision p) + ucast block_width)
      then Inl Uncaught_Exception
      else (case seed_quotents p 0 (replicate (unat block_width * length (args p)) 0) of
              Inl e \<Rightarrow> Inl e
            | Inr q \<Rightarrow>
                Inr \<lparr>precision = precision p, pi_d = pi_d p, multipliers = multipliers p,
                     args = args p, arg_sq = arg_sq p,
                     accumulator =
                       replicate (unat (fractional_size (precision p) + ucast block_width)) 0,
                     quotents = q, remainder_column = [],
                     block_digit_offset = 0, block_divisor_offset = 1\<rparr>))"

section \<open>Counting the live terms\<close>

fun scan_column :: "limb_int list \<Rightarrow> nat \<Rightarrow> nat \<Rightarrow> nat \<Rightarrow> fault + bool" where
  "scan_column q n limb 0 = Inr False"
| "scan_column q n limb (Suc k) =
     (if length q \<le> limb then Inl Out_Of_Bounds
      else if q ! limb \<noteq> 0 then Inr True
      else scan_column q n (limb + n) k)"

function count_from :: "limb_int list \<Rightarrow> nat \<Rightarrow> nat \<Rightarrow> fault + 32 word" where
  "count_from q n argi =
     (if argi < n then
        (case scan_column q n argi (unat block_width) of
           Inl e \<Rightarrow> Inl e
         | Inr True \<Rightarrow> Inr (of_nat (n - argi))
         | Inr False \<Rightarrow> count_from q n (argi + 1))
      else Inr 0)"
  by pat_completeness auto
termination
  by (relation "measure (\<lambda>(q, n, argi). n - argi)") auto

definition count_non_zero_quotents :: "state \<Rightarrow> fault + 32 word" where
  "count_non_zero_quotents s = count_from (quotents s) (length (args s)) 0"

section \<open>One block of the series\<close>

function term_loop ::
  "limb_int list \<Rightarrow> 32 word \<Rightarrow> nat \<Rightarrow> 32 word \<Rightarrow>
   limb_int list \<Rightarrow> limb_int list \<Rightarrow> nat \<Rightarrow> limb2_int \<Rightarrow>
   fault + limb_int list \<times> limb_int list \<times> nat \<times> limb2_int" where
  "term_loop sq c quotent i q r remainder row_sum =
     (if i < c then
        (if length r \<le> remainder \<or> length q \<le> quotent + unat i \<or> length sq \<le> unat i
         then Inl Out_Of_Bounds
         else if sq ! unat i = 0 then Inl Division_By_Zero
         else let n = (push_bit limb_bits (ucast (r ! remainder)) + ucast (q ! (quotent + unat i)) :: limb2_int);
                  qv = (ucast (n div ucast (sq ! unat i)) :: limb_int)
              in term_loop sq c quotent (i + 1)
                   (q[quotent + unat i := qv])
                   (r[remainder := ucast (n mod ucast (sq ! unat i))])
                   (remainder + 1) (row_sum + ucast qv))
      else Inr (q, r, remainder, row_sum))"
  by pat_completeness auto
termination
proof (relation "measure (\<lambda>(sq, c, quotent, i, q, r, remainder, row_sum). unat c - unat i)")
  show "wf (measure (\<lambda>(sq :: limb_int list, c :: 32 word, quotent :: nat, i :: 32 word,
       q :: limb_int list, r :: limb_int list, remainder :: nat, row_sum :: limb2_int). unat c - unat i))"
    by simp
next
  fix sq :: "limb_int list" and c i :: "32 word" and quotent remainder :: nat
    and q r :: "limb_int list" and row_sum n :: limb2_int and qv :: limb_int
  assume "i < c"
  then have "unat i < unat c" by (simp add: word_less_nat_alt)
  moreover from this have "unat (i + 1) = unat i + 1"
    using unat_limb_less[of c] by (simp add: unat_word_ariths)
  ultimately show "((sq, c, quotent, i + 1, q[quotent + unat i := qv],
       r[remainder := ucast (n mod ucast (sq ! unat i))], remainder + 1, row_sum + ucast qv),
       sq, c, quotent, i, q, r, remainder, row_sum)
      \<in> measure (\<lambda>(sq, c, quotent, i, q, r, remainder, row_sum). unat c - unat i)"
    by simp
qed

declare term_loop.simps [simp del]

lemma term_loop_remainder:
  "term_loop sq c quotent i q r remainder row_sum = Inr (q', r', remainder', row_sum') \<Longrightarrow>
   length r' = length r \<and> length q' = length q \<and> remainder \<le> remainder'"
proof (induction sq c quotent i q r remainder row_sum rule: term_loop.induct)
  case (1 sq c quotent i q r remainder row_sum)
  show ?case
  proof (cases "i < c")
    case True
    show ?thesis
      using "1.prems" True "1.IH"
      by (subst (asm) term_loop.simps) (fastforce simp: Let_def split: if_splits)
  next
    case False
    show ?thesis
      using "1.prems" False by (subst (asm) term_loop.simps) simp
  qed
qed

function row_loop ::
  "limb_int list \<Rightarrow> 32 word \<Rightarrow> nat \<Rightarrow>
   limb_int list \<Rightarrow> limb_int list \<Rightarrow> nat \<Rightarrow> bool \<Rightarrow> 32 word \<Rightarrow> limb2_int_signed \<Rightarrow>
   fault + limb_int list \<times> limb_int list \<times> limb2_int_signed" where
  "row_loop sq c quotent q r remainder addition divisor delta =
     (if remainder \<noteq> length r then
        (case term_loop sq c quotent 0 q r remainder 0 of
           Inl e \<Rightarrow> Inl e
         | Inr (q1, r1, remainder1, row_sum) \<Rightarrow>
             if length r1 \<le> remainder1 then Inl Out_Of_Bounds
             else let row_sum1 = row_sum + push_bit limb_bits (ucast (r1 ! remainder1))
                  in if divisor = 0 then Inl Division_By_Zero
                     else row_loop sq c quotent q1
                            (r1[remainder1 := ucast (row_sum1 mod ucast divisor)])
                            (remainder1 + 1) (\<not> addition) (divisor + 2)
                            (if addition then delta + row_sum1 div ucast divisor
                             else delta - row_sum1 div ucast divisor))
      else Inr (q, r, delta))"
  by pat_completeness auto
termination
proof (relation "measure (\<lambda>(sq, c, quotent, q, r, remainder, addition, divisor, delta).
                            length r - remainder)")
  show "wf (measure (\<lambda>(sq :: limb_int list, c :: 32 word, quotent :: nat, q :: limb_int list,
       r :: limb_int list, remainder :: nat, addition :: bool, divisor :: 32 word,
       delta :: limb2_int_signed). length r - remainder))"
    by simp
next
  fix sq :: "limb_int list" and c divisor :: "32 word" and quotent remainder remainder1 :: nat
    and q r q1 r1 :: "limb_int list" and addition :: bool and delta row_sum row_sum1 :: limb2_int
    and x :: "limb_int list \<times> limb_int list \<times> nat \<times> limb2_int"
    and y :: "limb_int list \<times> nat \<times> limb2_int" and z :: "nat \<times> limb2_int"
  assume "term_loop sq c quotent 0 q r remainder 0 = Inr x" "(q1, y) = x" "(r1, z) = y"
    "(remainder1, row_sum) = z" "\<not> length r1 \<le> remainder1"
  then have "term_loop sq c quotent 0 q r remainder 0 = Inr (q1, r1, remainder1, row_sum)"
    by auto
  from term_loop_remainder[OF this] \<open>\<not> length r1 \<le> remainder1\<close>
  show "((sq, c, quotent, q1, r1[remainder1 := ucast (row_sum1 mod ucast divisor)], remainder1 + 1,
        \<not> addition, divisor + 2,
        if addition then delta + row_sum1 div ucast divisor else delta - row_sum1 div ucast divisor),
       sq, c, quotent, q, r, remainder, addition, divisor, delta)
      \<in> measure (\<lambda>(sq, c, quotent, q, r, remainder, addition, divisor, delta). length r - remainder)"
    by auto
qed

declare row_loop.simps [simp del]

partial_function (option) digit_loop ::
  "limb_int list \<Rightarrow> nat \<Rightarrow> 32 word \<Rightarrow> 32 word \<Rightarrow>
   limb_int list \<Rightarrow> limb_int list \<Rightarrow> limb_int list \<Rightarrow> nat \<Rightarrow> 32 word \<Rightarrow>
   (fault + limb_int list \<times> limb_int list \<times> limb_int list) option" where
  "digit_loop sq n c divisor0 q r acc quotent digit_offset =
     (if quotent \<noteq> length q then
        (case row_loop sq c quotent q r 0 True divisor0 0 of
           Inl e \<Rightarrow> Some (Inl e)
         | Inr (q1, r1, delta) \<Rightarrow>
             (case accumulate acc delta digit_offset of
                Inl e \<Rightarrow> Some (Inl e)
              | Inr acc1 \<Rightarrow> digit_loop sq n c divisor0 q1 r1 acc1 (quotent + n) (digit_offset + 1)))
      else Some (Inr (q, r, acc)))"

definition process_block :: "state \<Rightarrow> remainder_block \<Rightarrow> (fault + state \<times> remainder_block) option" where
  "process_block s block =
     (case digit_loop (arg_sq s) (length (args s)) (arg_count block) (block_divisor_offset s)
             (quotents s) (remainders block) (accumulator s) 0 (block_digit_offset s) of
        None \<Rightarrow> None
      | Some (Inl e) \<Rightarrow> Some (Inl e)
      | Some (Inr (q, r, acc)) \<Rightarrow>
          Some (Inr (s\<lparr>accumulator := acc, quotents := q\<rparr>, block\<lparr>remainders := r\<rparr>)))"

section \<open>The main loop\<close>

definition ensure_block :: "state \<Rightarrow> 32 word \<Rightarrow> 32 word \<Rightarrow> remainder_block list" where
  "ensure_block s column_index next_arg_count =
     (if length (remainder_column s) \<le> unat column_index then
        (let rc = remainder_column s @ [\<lparr>arg_count = 0, remainders = []\<rparr>]
         in rc[unat column_index :=
                 \<lparr>arg_count = next_arg_count,
                  remainders = replicate ((length (args s) + 1) * unat block_height) 0\<rparr>])
      else remainder_column s)"

partial_function (option) column_loop :: "state \<Rightarrow> 32 word \<Rightarrow> 32 word \<Rightarrow> (fault + state) option" where
  "column_loop s next_arg_count column_index =
     (let rc = ensure_block s column_index next_arg_count
      in if length rc \<le> unat column_index then Some (Inl Out_Of_Bounds)
         else let block = (rc ! unat column_index)
                    \<lparr>arg_count := max (arg_count (rc ! unat column_index)) next_arg_count\<rparr>
              in case process_block s block of
                   None \<Rightarrow> None
                 | Some (Inl e) \<Rightarrow> Some (Inl e)
                 | Some (Inr (s1, block1)) \<Rightarrow>
                     (let s2 = s1\<lparr>remainder_column := rc[unat column_index := block1]\<rparr>
                      in case count_non_zero_quotents s2 of
                           Inl e \<Rightarrow> Some (Inl e)
                         | Inr next_arg_count1 \<Rightarrow>
                             (let s3 = s2\<lparr>block_divisor_offset :=
                                             block_divisor_offset s2 + 2 * block_height\<rparr>
                              in if unat (column_index + 1) < length (remainder_column s3)
                                    \<or> 0 < next_arg_count1
                                 then column_loop s3 next_arg_count1 (column_index + 1)
                                 else Some (Inr s3))))"

partial_function (option) main_loop :: "state \<Rightarrow> (fault + state) option" where
  "main_loop s =
     (if unat (block_digit_offset s) < length (accumulator s) then
        (case column_loop (s\<lparr>block_divisor_offset := 1\<rparr>) (of_nat (length (args s))) 0 of
           None \<Rightarrow> None
         | Some (Inl e) \<Rightarrow> Some (Inl e)
         | Some (Inr s1) \<Rightarrow>
             main_loop (s1\<lparr>block_digit_offset := block_digit_offset s1 + block_width\<rparr>))
      else Some (Inr s))"

section \<open>Printing\<close>

function skip_zero_limbs :: "limb_int list \<Rightarrow> 32 word \<Rightarrow> fault + 32 word" where
  "skip_zero_limbs acc first_non_zero =
     (if first_non_zero < block_width then
        (if length acc \<le> unat first_non_zero then Inl Out_Of_Bounds
         else if acc ! unat first_non_zero = 0 then skip_zero_limbs acc (first_non_zero + 1)
         else Inr first_non_zero)
      else Inr first_non_zero)"
  by pat_completeness auto
termination
proof (relation "measure (\<lambda>(acc, first_non_zero). unat block_width - unat first_non_zero)")
  show "wf (measure (\<lambda>(acc :: limb_int list, first_non_zero :: 32 word).
              unat block_width - unat first_non_zero))"
    by simp
next
  fix acc :: "limb_int list" and first_non_zero :: "32 word"
  assume "first_non_zero < block_width"
  then have "unat first_non_zero < 64" by (simp add: word_less_nat_alt block_width_def)
  moreover from this have "unat (first_non_zero + 1) = unat first_non_zero + 1"
    by (simp add: unat_word_ariths)
  ultimately show "((acc, first_non_zero + 1), acc, first_non_zero)
      \<in> measure (\<lambda>(acc, first_non_zero). unat block_width - unat first_non_zero)"
    by (simp add: block_width_def)
qed

function divide_by_10 :: "limb_int list \<Rightarrow> 32 word \<Rightarrow> limb2_int \<Rightarrow> fault + limb_int list" where
  "divide_by_10 acc i n =
     (if i < block_width then
        (if length acc \<le> unat i then Inl Out_Of_Bounds
         else let n1 = n + ucast (acc ! unat i)
              in divide_by_10 (acc[unat i := ucast (n1 div 10)]) (i + 1)
                   (push_bit limb_bits (n1 mod 10)))
      else Inr acc)"
  by pat_completeness auto
termination
proof (relation "measure (\<lambda>(acc, i, n). unat block_width - unat i)")
  show "wf (measure (\<lambda>(acc :: limb_int list, i :: 32 word, n :: limb2_int).
              unat block_width - unat i))"
    by simp
next
  fix acc :: "limb_int list" and i :: "32 word" and n n1 :: limb2_int
  assume "i < block_width"
  then have "unat i < 64" by (simp add: word_less_nat_alt block_width_def)
  moreover from this have "unat (i + 1) = unat i + 1"
    by (simp add: unat_word_ariths)
  ultimately show "((acc[unat i := ucast (n1 div 10)], i + 1, push_bit limb_bits (n1 mod 10)), acc, i, n)
      \<in> measure (\<lambda>(acc, i, n). unat block_width - unat i)"
    by (simp add: block_width_def)
qed

declare skip_zero_limbs.simps [simp del] divide_by_10.simps [simp del]

lemma limbs_val_Cons:
  "limbs_val (x # xs) = unat x * 4294967296 ^ length xs + limbs_val xs"
  using limbs_val_append[of "[x]" xs] limbs_val_snoc[of "[]" x] by simp

lemma limbs_val_pos:
  "i < length xs \<Longrightarrow> xs ! i \<noteq> 0 \<Longrightarrow> 0 < limbs_val xs"
proof (induction xs arbitrary: i)
  case Nil
  then show ?case by simp
next
  case (Cons x xs)
  show ?case
  proof (cases i)
    case 0
    with Cons.prems have "0 < unat x" by (simp add: unat_gt_0)
    then show ?thesis by (simp add: limbs_val_Cons)
  next
    case (Suc j)
    with Cons.prems Cons.IH[of j] show ?thesis by (simp add: limbs_val_Cons)
  qed
qed

lemma unat_push32:
  "unat (x :: limb2_int) < 4294967296 \<Longrightarrow> unat (push_bit limb_bits x) = unat x * 4294967296"
  by (simp add: limb_bits_def unat_word_ariths push_bit_eq_mult)

lemma divide_by_10_correct:
  "unat i \<le> 64 \<Longrightarrow> unat n = R * 4294967296 \<Longrightarrow> R < 10 \<Longrightarrow>
   divide_by_10 acc i n = Inr acc' \<Longrightarrow>
   length acc' = length acc \<and> (unat i < 64 \<longrightarrow> 64 \<le> length acc) \<and>
   take (unat i) acc' = take (unat i) acc \<and> drop 64 acc' = drop 64 acc \<and>
   limbs_val (drop (unat i) (take 64 acc')) =
     (R * 4294967296 ^ (64 - unat i) + limbs_val (drop (unat i) (take 64 acc))) div 10"
proof (induction acc i n arbitrary: R rule: divide_by_10.induct)
  case (1 acc i n)
  show ?case
  proof (cases "i < block_width")
    case False
    then have i64: "unat i = 64"
      using "1.prems"(1) by (simp add: word_less_nat_alt block_width_def)
    have "acc' = acc"
      using "1.prems"(4) False by (subst (asm) divide_by_10.simps) simp
    then show ?thesis using i64 "1.prems"(3) by simp
  next
    case True
    define k where "k = unat i"
    define a where "a = acc ! k"
    define n1 where "n1 = n + ucast a"
    define q where "q = (ucast (n1 div 10) :: limb_int)"
    define n' where "n' = push_bit limb_bits (n1 mod 10)"
    define acc1 where "acc1 = acc[k := q]"
    define P :: nat where "P = 4294967296 ^ (63 - k)"
    have k64: "k < 64" using True by (simp add: k_def word_less_nat_alt block_width_def)
    have inb: "k < length acc"
      using "1.prems"(4) True
      by (subst (asm) divide_by_10.simps) (auto simp: k_def split: if_splits)
    have rec: "divide_by_10 acc1 (i + 1) n' = Inr acc'"
      using "1.prems"(4) True inb
      by (subst (asm) divide_by_10.simps)
         (simp add: k_def Let_def acc1_def q_def n1_def a_def n'_def)
    have i1: "unat (i + 1) = Suc k"
      using k64 by (simp add: k_def unat_word_ariths)
    have A: "unat a < 4294967296" by (rule unat_limb_less)
    have un1: "unat n1 = R * 4294967296 + unat a"
      using "1.prems"(2,3) A by (simp add: n1_def unat_add64 unat_ucast_up)
    have lt: "unat n1 < 10 * 4294967296"
      using un1 A "1.prems"(3) by simp
    have uq: "unat q = unat n1 div 10"
      using lt by (simp add: q_def unat_ucast_down unat_div)
    define R' where "R' = unat n1 mod 10"
    have um: "unat (n1 mod 10) = R'"
      by (simp add: R'_def unat_mod)
    have un': "unat n' = R' * 4294967296"
      unfolding n'_def using um by (subst unat_push32) (simp_all add: R'_def)
    have R': "R' < 10" by (simp add: R'_def)
    have nle: "\<not> length acc \<le> unat i" using inb by (simp add: k_def)
    have le64: "unat (i + 1) \<le> 64" using i1 k64 by simp
    from "1.IH"[OF True nle n1_def[unfolded a_def k_def] le64 un'[unfolded n'_def] R'
        rec[unfolded acc1_def q_def n'_def k_def]] i1
    have IH: "length acc' = length acc1" "Suc k < 64 \<longrightarrow> 64 \<le> length acc1"
      "take (Suc k) acc' = take (Suc k) acc1" "drop 64 acc' = drop 64 acc1"
      "limbs_val (drop (Suc k) (take 64 acc')) =
         (R' * 4294967296 ^ (64 - Suc k) + limbs_val (drop (Suc k) (take 64 acc1))) div 10"
      by (simp_all add: k_def acc1_def q_def n1_def a_def n'_def)
    have len: "length acc' = length acc" using IH(1) by (simp add: acc1_def)
    have l64: "64 \<le> length acc"
      using IH(2) inb k64 by (cases "Suc k < 64") (auto simp: acc1_def)
    have tk: "take k acc' = take k acc"
    proof -
      have "take k (take (Suc k) acc') = take k (take (Suc k) acc1)" using IH(3) by simp
      then show ?thesis by (simp add: acc1_def min_def)
    qed
    have ak: "acc' ! k = q"
    proof -
      have "take (Suc k) acc' ! k = take (Suc k) acc1 ! k" using IH(3) by simp
      then show ?thesis using inb by (simp add: acc1_def)
    qed
    have dr: "drop 64 acc' = drop 64 acc" using IH(4) k64 by (simp add: acc1_def)
    have d1: "drop k (take 64 acc') = q # drop (Suc k) (take 64 acc')"
      using Cons_nth_drop_Suc[of k "take 64 acc'"] k64 l64 len ak by simp
    have d2: "drop k (take 64 acc) = a # drop (Suc k) (take 64 acc)"
      using Cons_nth_drop_Suc[of k "take 64 acc"] k64 l64 by (simp add: a_def)
    have d3: "drop (Suc k) (take 64 acc1) = drop (Suc k) (take 64 acc)"
      by (simp add: acc1_def drop_take)
    have ln: "length (drop (Suc k) (take 64 acc)) = 63 - k" "length (drop (Suc k) (take 64 acc')) = 63 - k"
      using l64 len by simp_all
    define S where "S = limbs_val (drop (Suc k) (take 64 acc))"
    have v': "limbs_val (drop k (take 64 acc')) = unat q * P + (R' * P + S) div 10"
      using d1 IH(5) d3 ln by (simp add: limbs_val_Cons P_def S_def)
    have v: "limbs_val (drop k (take 64 acc)) = unat a * P + S"
      using d2 ln by (simp add: limbs_val_Cons P_def S_def)
    have pw: "(4294967296 :: nat) ^ (64 - k) = 4294967296 * P"
      using k64 by (simp add: P_def flip: power_Suc)
    have "R * 4294967296 ^ (64 - k) + (unat a * P + S) = unat n1 * P + S"
      using un1 pw by (simp add: algebra_simps)
    also have "\<dots> = 10 * (unat q * P) + (R' * P + S)"
    proof -
      have "unat n1 = 10 * unat q + R'" by (simp add: uq R'_def)
      then show ?thesis by (simp add: algebra_simps)
    qed
    finally have "(R * 4294967296 ^ (64 - k) + (unat a * P + S)) div 10
        = unat q * P + (R' * P + S) div 10"
      by simp
    with v v' have "limbs_val (drop k (take 64 acc')) =
        (R * 4294967296 ^ (64 - k) + limbs_val (drop k (take 64 acc))) div 10"
      by simp
    with len l64 tk dr show ?thesis by (simp add: k_def)
  qed
qed

lemma skip_zero_limbs_result:
  "skip_zero_limbs acc first_non_zero = Inr f \<Longrightarrow>
   unat first_non_zero \<le> unat f \<and>
   (f < block_width \<longrightarrow> unat f < length acc \<and> acc ! unat f \<noteq> 0)"
proof (induction acc first_non_zero rule: skip_zero_limbs.induct)
  case (1 acc first_non_zero)
  show ?case
  proof (cases "first_non_zero < block_width")
    case False
    then show ?thesis
      using "1.prems" by (subst (asm) skip_zero_limbs.simps) simp
  next
    case True
    then have k64: "unat first_non_zero < 64"
      by (simp add: word_less_nat_alt block_width_def)
    then have s: "unat (first_non_zero + 1) = Suc (unat first_non_zero)"
      by (simp add: unat_word_ariths)
    show ?thesis
    proof (cases "length acc \<le> unat first_non_zero")
      case True
      then show ?thesis
        using "1.prems" \<open>first_non_zero < block_width\<close>
        by (subst (asm) skip_zero_limbs.simps) simp
    next
      case inb: False
      show ?thesis
      proof (cases "acc ! unat first_non_zero = 0")
        case True
        have "skip_zero_limbs acc (first_non_zero + 1) = Inr f"
          using "1.prems" \<open>first_non_zero < block_width\<close> inb True
          by (subst (asm) skip_zero_limbs.simps) simp
        from "1.IH"[OF \<open>first_non_zero < block_width\<close> inb True this] s
        show ?thesis by simp
      next
        case False
        have "f = first_non_zero"
          using "1.prems" \<open>first_non_zero < block_width\<close> inb False
          by (subst (asm) skip_zero_limbs.simps) simp
        then show ?thesis using inb False by simp
      qed
    qed
  qed
qed

lemma divide_by_10_top:
  assumes "divide_by_10 acc 0 0 = Inr acc'"
  shows "length acc' = length acc" and "64 \<le> length acc"
    and "limbs_val (take 64 acc') = limbs_val (take 64 acc) div 10"
    and "drop 64 acc' = drop 64 acc"
  using divide_by_10_correct[of 0 0 0 acc acc'] assms by simp_all

function integer_digits :: "limb_int list \<Rightarrow> 32 word \<Rightarrow> string \<Rightarrow> fault + limb_int list \<times> string" where
  "integer_digits acc first_non_zero result =
     (if first_non_zero < block_width then
        (if length acc \<le> unat (block_width - 1) then Inl Out_Of_Bounds
         else (case divide_by_10 acc 0 0 of
                 Inl e \<Rightarrow> Inl e
               | Inr acc1 \<Rightarrow>
                   (case skip_zero_limbs acc1 first_non_zero of
                      Inl e \<Rightarrow> Inl e
                    | Inr first_non_zero1 \<Rightarrow>
                        integer_digits acc1 first_non_zero1
                          (result @ [char_of (48 + unat (acc ! unat (block_width - 1) mod 10))]))))
      else Inr (acc, result))"
  by pat_completeness auto
termination
proof (relation "measures [\<lambda>(acc, first_non_zero, result). limbs_val (take 64 acc),
                           \<lambda>(acc, first_non_zero, result). 64 - unat first_non_zero]")
  show "wf (measures [\<lambda>(acc :: limb_int list, first_non_zero :: 32 word, result :: string).
                         limbs_val (take 64 acc),
                      \<lambda>(acc, first_non_zero, result). 64 - unat first_non_zero])"
    by simp
next
  fix acc acc1 :: "limb_int list" and first_non_zero first_non_zero1 :: "32 word"
    and result :: string
  assume lt: "first_non_zero < block_width"
    and dv: "divide_by_10 acc 0 0 = Inr acc1"
    and sk: "skip_zero_limbs acc1 first_non_zero = Inr first_non_zero1"
  have k64: "unat first_non_zero < 64"
    using lt by (simp add: word_less_nat_alt block_width_def)
  note d = divide_by_10_top[OF dv]
  note s = skip_zero_limbs_result[OF sk]
  have "limbs_val (take 64 acc1) < limbs_val (take 64 acc) \<or>
        (limbs_val (take 64 acc1) = limbs_val (take 64 acc) \<and>
         64 - unat first_non_zero1 < 64 - unat first_non_zero)"
  proof (cases "limbs_val (take 64 acc) = 0")
    case False
    then show ?thesis using d(3) by simp
  next
    case True
    then have z: "limbs_val (take 64 acc1) = 0" using d(3) by simp
    have "\<not> first_non_zero1 < block_width"
    proof
      assume a: "first_non_zero1 < block_width"
      then have "unat first_non_zero1 < 64"
        by (simp add: word_less_nat_alt block_width_def)
      moreover have "acc1 ! unat first_non_zero1 \<noteq> 0" "unat first_non_zero1 < length acc1"
        using s a by simp_all
      ultimately have "0 < limbs_val (take 64 acc1)"
        using limbs_val_pos[of "unat first_non_zero1" "take 64 acc1"] by simp
      with z show False by simp
    qed
    then have "64 \<le> unat first_non_zero1"
      by (simp add: word_less_nat_alt block_width_def)
    with k64 True z show ?thesis by simp
  qed
  then show "((acc1, first_non_zero1,
        result @ [char_of (48 + unat (acc ! unat (block_width - 1) mod 10))]),
       acc, first_non_zero, result)
      \<in> measures [\<lambda>(acc, first_non_zero, result). limbs_val (take 64 acc),
                   \<lambda>(acc, first_non_zero, result). 64 - unat first_non_zero]"
    by auto
qed

definition print_integer_part :: "limb_int list \<Rightarrow> fault + limb_int list \<times> string" where
  "print_integer_part acc =
     (case skip_zero_limbs acc 0 of
        Inl e \<Rightarrow> Inl e
      | Inr first_non_zero \<Rightarrow>
          (case integer_digits acc first_non_zero [] of
             Inl e \<Rightarrow> Inl e
           | Inr (acc1, result) \<Rightarrow>
               Inr (acc1, if result = [] then ''0'' else rev result)))"

declare integer_digits.simps [simp del]

definition digits10 :: nat where
  "digits10 = 9"

definition pow10 :: limb_int where
  "pow10 = 10 ^ digits10"

function skip_zero_limbs_down :: "limb_int list \<Rightarrow> 32 word \<Rightarrow> fault + 32 word" where
  "skip_zero_limbs_down acc first_non_zero =
     (if 0 < first_non_zero then
        (if length acc \<le> unat first_non_zero then Inl Out_Of_Bounds
         else if acc ! unat first_non_zero = 0 then skip_zero_limbs_down acc (first_non_zero - 1)
         else Inr first_non_zero)
      else Inr first_non_zero)"
  by pat_completeness auto
termination
  by (relation "measure (\<lambda>(acc, first_non_zero). unat first_non_zero)")
     (auto simp: measure_unat word_greater_zero_iff)

function multiply_pow10 :: "limb_int list \<Rightarrow> 32 word \<Rightarrow> limb2_int \<Rightarrow> fault + limb_int list" where
  "multiply_pow10 acc i n =
     (if block_width - 1 \<le> i then
        (if length acc \<le> unat i then Inl Out_Of_Bounds
         else let n1 = n + ucast (acc ! unat i) * ucast pow10
              in multiply_pow10 (acc[unat i := ucast n1]) (i - 1) (drop_bit limb_bits n1))
      else Inr acc)"
  by pat_completeness auto
termination
proof (relation "measure (\<lambda>(acc, i, n). unat i)")
  show "wf (measure (\<lambda>(acc :: limb_int list, i :: 32 word, n :: limb2_int). unat i))"
    by simp
next
  fix acc :: "limb_int list" and i :: "32 word" and n n1 :: limb2_int
  assume "block_width - 1 \<le> i"
  then have "i \<noteq> 0" by (auto simp: block_width_def)
  then show "((acc[unat i := ucast n1], i - 1, drop_bit limb_bits n1), acc, i, n)
      \<in> measure (\<lambda>(acc, i, n). unat i)"
    by (simp add: measure_unat)
qed

fun emit_digits :: "limb_int list \<Rightarrow> limb_int \<Rightarrow> nat \<Rightarrow> string \<Rightarrow> fault + limb_int list \<times> string" where
  "emit_digits acc p 0 result = Inr (acc, result)"
| "emit_digits acc p (Suc k) result =
     (if length acc \<le> unat (block_width - 1) then Inl Out_Of_Bounds
      else if p = 0 then Inl Division_By_Zero
      else emit_digits
             (acc[unat (block_width - 1) := acc ! unat (block_width - 1) mod p])
             (p div 10) k
             (result @ [char_of (48 + unat (acc ! unat (block_width - 1) div p))]))"

lemma emit_digits_length:
  "emit_digits acc p k result = Inr (acc', result') \<Longrightarrow>
   length result' = length result + k \<and> length acc' = length acc"
  by (induction acc p k result rule: emit_digits.induct) (auto split: if_splits)

function fractional_digits ::
  "limb_int list \<Rightarrow> 32 word \<Rightarrow> 64 word \<Rightarrow> string \<Rightarrow> fault + limb_int list \<times> string" where
  "fractional_digits acc first_non_zero dec_digits result =
     (if 0 < first_non_zero \<and> length result \<le> unat dec_digits then
        (case multiply_pow10 acc first_non_zero 0 of
           Inl e \<Rightarrow> Inl e
         | Inr acc1 \<Rightarrow>
             (case emit_digits acc1 (pow10 div 10) digits10 result of
                Inl e \<Rightarrow> Inl e
              | Inr (acc2, result1) \<Rightarrow>
                  if length acc2 \<le> unat (block_width - 1) then Inl Out_Of_Bounds
                  else (case skip_zero_limbs_down (acc2[unat (block_width - 1) := 0]) first_non_zero of
                          Inl e \<Rightarrow> Inl e
                        | Inr first_non_zero1 \<Rightarrow>
                            fractional_digits (acc2[unat (block_width - 1) := 0]) first_non_zero1
                              dec_digits result1)))
      else Inr (acc, result))"
  by pat_completeness auto
termination
proof (relation "measure (\<lambda>(acc, first_non_zero, dec_digits, result).
                            Suc (unat dec_digits) - length result)")
  show "wf (measure (\<lambda>(acc :: limb_int list, first_non_zero :: 32 word, dec_digits :: 64 word,
                        result :: string). Suc (unat dec_digits) - length result))"
    by simp
next
  fix acc acc1 acc2 :: "limb_int list" and first_non_zero first_non_zero1 :: "32 word"
    and dec_digits :: "64 word" and result result1 :: string
    and x :: "limb_int list \<times> string"
  assume c: "0 < first_non_zero \<and> length result \<le> unat dec_digits"
    and e: "emit_digits acc1 (pow10 div 10) digits10 result = Inr x" "(acc2, result1) = x"
  from e have "emit_digits acc1 (pow10 div 10) digits10 result = Inr (acc2, result1)" by simp
  from emit_digits_length[OF this] c
  show "((acc2[unat (block_width - 1) := 0], first_non_zero1, dec_digits, result1),
        acc, first_non_zero, dec_digits, result)
      \<in> measure (\<lambda>(acc, first_non_zero, dec_digits, result).
                     Suc (unat dec_digits) - length result)"
    by (auto simp: digits10_def)
qed

definition print_fractional_part :: "limb_int list \<Rightarrow> fault + limb_int list \<times> string" where
  "print_fractional_part acc =
     (case skip_zero_limbs_down acc (of_nat (length acc) - 1) of
        Inl e \<Rightarrow> Inl e
      | Inr first_non_zero \<Rightarrow>
          (case fractional_digits acc first_non_zero
                  ((of_nat (length acc) - ucast block_width) * of_nat digits10 - 2) [] of
             Inl e \<Rightarrow> Inl e
           | Inr (acc1, result) \<Rightarrow>
               Inr (acc1, if result \<noteq> [] then ''.'' @ result else [])))"

section \<open>The program\<close>

definition default_args :: "string list" where
  "default_args = ['''', ''17'', ''4'', ''5'', ''7'', ''4'', ''68'', ''2'', ''117'']"

definition main :: "string list \<Rightarrow> (fault + string \<times> int) option" where
  "main argv =
     (if argv = [] then Some (Inl Null_Argument)
      else (case read_parameters (if tl argv = [] then default_args else argv) of
              Inl e \<Rightarrow> Some (Inl e)
            | Inr p \<Rightarrow>
                (case initialize_variables p of
                   Inl e \<Rightarrow> Some (Inl e)
                 | Inr s \<Rightarrow>
                     (case main_loop s of
                        None \<Rightarrow> None
                      | Some (Inl e) \<Rightarrow> Some (Inl e)
                      | Some (Inr s1) \<Rightarrow>
                          (case print_integer_part (accumulator s1) of
                             Inl e \<Rightarrow> Some (Inl e)
                           | Inr (acc1, out1) \<Rightarrow>
                               (case print_fractional_part acc1 of
                                  Inl e \<Rightarrow> Some (Inl e)
                                | Inr (acc2, out2) \<Rightarrow>
                                    Some (Inr (out1 @ out2 @ [CHR 0x0A], 0))))))))"

subsection \<open>What read_parameters returns\<close>

definition terms_ok :: "limb_int list \<Rightarrow> limb_int list \<Rightarrow> limb_int list \<Rightarrow> bool" where
  "terms_ok ms as sqs \<longleftrightarrow>
     length ms = length as \<and> length sqs = length as \<and>
     list_all (\<lambda>a. unat a \<le> 65535) as \<and>
     sqs = map (\<lambda>a. a * a) as"

lemma unat_arg_max: "unat arg_max = 65535"
  by (simp add: arg_max_def limb_bits_def)

lemma unat_limb_max: "unat limb_max = 4294967295"
  by (simp add: limb_max_def)

lemma ucast_square:
  fixes n :: "64 word"
  shows "(ucast (n * n) :: limb_int) = ucast n * ucast n"
  by (simp add: word_unat_eq_iff unat_ucast_down unat_word_ariths mod_mult_eq mod_mod_cancel)

lemma read_terms_ok:
  "read_terms ts (ms, as, sqs) = Inr (ms', as', sqs') \<Longrightarrow> terms_ok ms as sqs \<Longrightarrow>
   terms_ok ms' as' sqs'"
proof (induction ts "(ms, as, sqs)" arbitrary: ms as sqs rule: read_terms.induct)
  case 1
  then show ?case by simp
next
  case (2 sm rest ms as sqs)
  from "2.prems"(1) obtain n sa rest' n' where
    sm: "stoul sm = Inr n" "\<not> limb_max < n" and rest: "rest = sa # rest'"
    and sa: "stoul sa = Inr n'" "\<not> arg_max < n'"
    and rec: "read_terms rest' (ms @ [ucast n], as @ [ucast n'], sqs @ [ucast (n' * n')])
              = Inr (ms', as', sqs')"
    by (auto split: sum.splits if_splits list.splits)
  have le: "unat n' \<le> 65535"
    using sa(2) by (simp add: word_less_nat_alt unat_arg_max)
  then have "unat (ucast n' :: limb_int) \<le> 65535"
    by (simp add: unat_ucast_down)
  then have "terms_ok (ms @ [ucast n]) (as @ [ucast n']) (sqs @ [ucast (n' * n')])"
    using "2.prems"(2) by (simp add: terms_ok_def ucast_square)
  from "2.hyps"[OF sm rest sa rec this] show ?case .
qed

lemma read_parameters_ok:
  assumes "read_parameters argv = Inr p"
  shows "terms_ok (multipliers p) (args p) (arg_sq p)" and "args p \<noteq> []"
    and "pi_d p \<noteq> 0" and "1 \<le> precision p" and "3 < length argv"
proof -
  from assms obtain prog sp sd ts pr d ms as sqs where
    argv: "argv = prog # sp # sd # ts"
    and "stoul sp = Inr pr" "\<not> pr < 1" "stoul sd = Inr d" "d \<noteq> 0"
    and rt: "read_terms ts ([], [], []) = Inr (ms, as, sqs)" and ne: "as \<noteq> []"
    and p: "p = \<lparr>precision = pr, pi_d = d, multipliers = ms, args = as, arg_sq = sqs\<rparr>"
    by (auto simp: read_parameters_def split: list.splits sum.splits if_splits)
  have "terms_ok [] [] []" by (simp add: terms_ok_def)
  from read_terms_ok[OF rt this] show "terms_ok (multipliers p) (args p) (arg_sq p)"
    by (simp add: p)
  show "args p \<noteq> []" using ne by (simp add: p)
  show "pi_d p \<noteq> 0" using \<open>d \<noteq> 0\<close> by (simp add: p)
  show "1 \<le> precision p" using \<open>\<not> pr < 1\<close> by (simp add: p word_less_nat_alt word_le_nat_alt)
  have "ts \<noteq> []" using rt ne by auto
  then show "3 < length argv" by (cases ts) (simp_all add: argv)
qed

declare seed_quotents.simps [simp del]

definition seed_value :: "params \<Rightarrow> nat \<Rightarrow> limb2_int" where
  "seed_value p i = ucast (args p ! i) * ucast (multipliers p ! i) * pi_d p"

lemma unat_block_width_m1: "unat (block_width - 1) = 63" and unat_block_width_m2: "unat (block_width - 2) = 62"
  and unat_block_width: "unat block_width = 64"
  by (simp_all add: block_width_def)

lemma seed_quotents_result:
  assumes "length (multipliers p) = length (args p)"
  shows "i \<le> length (args p) \<Longrightarrow> length q = 64 * length (args p) \<Longrightarrow>
    \<exists>q'. seed_quotents p i q = Inr q' \<and> length q' = length q \<and>
      (\<forall>j. i \<le> j \<and> j < length (args p) \<longrightarrow>
           q' ! (63 * length (args p) + j) = ucast (seed_value p j) \<and>
           q' ! (62 * length (args p) + j) = ucast (drop_bit 32 (seed_value p j))) \<and>
      (\<forall>k. (\<forall>j. i \<le> j \<and> j < length (args p) \<longrightarrow>
                 k \<noteq> 63 * length (args p) + j \<and> k \<noteq> 62 * length (args p) + j) \<longrightarrow>
           q' ! k = q ! k)"
proof (induction "length (args p) - i" arbitrary: i q)
  case 0
  then have "i = length (args p)" by simp
  then show ?case by (subst seed_quotents.simps) auto
next
  case (Suc d)
  define N where "N = length (args p)"
  define q1 where "q1 = q[63 * N + i := ucast (seed_value p i),
                          62 * N + i := ucast (drop_bit 32 (seed_value p i))]"
  have i: "i < N" using Suc.hyps(2) by (simp add: N_def)
  have len1: "length q1 = 64 * N" using Suc.prems(2) by (simp add: q1_def N_def)
  have step: "seed_quotents p i q = seed_quotents p (i + 1) q1"
    using i assms Suc.prems(2)
    by (subst seed_quotents.simps)
       (simp add: N_def[symmetric] Let_def q1_def seed_value_def unat_block_width_m1
          unat_block_width_m2 limb_bits_def)
  have "d = length (args p) - (i + 1)" using Suc.hyps(2) by simp
  from Suc.hyps(1)[OF this, of q1] i len1
  obtain q' where r: "seed_quotents p (i + 1) q1 = Inr q'" and len: "length q' = length q1"
    and set: "\<forall>j. i + 1 \<le> j \<and> j < N \<longrightarrow>
           q' ! (63 * N + j) = ucast (seed_value p j) \<and>
           q' ! (62 * N + j) = ucast (drop_bit 32 (seed_value p j))"
    and keep: "\<forall>k. (\<forall>j. i + 1 \<le> j \<and> j < N \<longrightarrow> k \<noteq> 63 * N + j \<and> k \<noteq> 62 * N + j) \<longrightarrow>
           q' ! k = q1 ! k"
    by (auto simp: N_def)
  have ne: "62 * N + i \<noteq> 63 * N + i" using i by simp
  have lo: "q' ! (63 * N + i) = ucast (seed_value p i)"
  proof -
    have "q' ! (63 * N + i) = q1 ! (63 * N + i)" using keep i by auto
    also have "\<dots> = ucast (seed_value p i)"
      using i Suc.prems(2) ne by (simp add: q1_def N_def nth_list_update)
    finally show ?thesis .
  qed
  have hi: "q' ! (62 * N + i) = ucast (drop_bit 32 (seed_value p i))"
  proof -
    have "q' ! (62 * N + i) = q1 ! (62 * N + i)" using keep i by auto
    also have "\<dots> = ucast (drop_bit 32 (seed_value p i))"
      using i Suc.prems(2) ne by (simp add: q1_def N_def nth_list_update)
    finally show ?thesis .
  qed
  have all: "\<forall>j. i \<le> j \<and> j < N \<longrightarrow>
           q' ! (63 * N + j) = ucast (seed_value p j) \<and>
           q' ! (62 * N + j) = ucast (drop_bit 32 (seed_value p j))"
  proof (intro allI impI)
    fix j assume j: "i \<le> j \<and> j < N"
    show "q' ! (63 * N + j) = ucast (seed_value p j) \<and>
          q' ! (62 * N + j) = ucast (drop_bit 32 (seed_value p j))"
    proof (cases "j = i")
      case True
      then show ?thesis using lo hi by simp
    next
      case False
      then show ?thesis using set j by simp
    qed
  qed
  have rest: "\<forall>k. (\<forall>j. i \<le> j \<and> j < N \<longrightarrow> k \<noteq> 63 * N + j \<and> k \<noteq> 62 * N + j) \<longrightarrow>
           q' ! k = q ! k"
  proof (intro allI impI)
    fix k assume k: "\<forall>j. i \<le> j \<and> j < N \<longrightarrow> k \<noteq> 63 * N + j \<and> k \<noteq> 62 * N + j"
    then have "q' ! k = q1 ! k" using keep by simp
    also have "\<dots> = q ! k"
    proof -
      have "k \<noteq> 63 * N + i" "k \<noteq> 62 * N + i" using k i by auto
      then show ?thesis by (simp add: q1_def)
    qed
    finally show "q' ! k = q ! k" .
  qed
  show ?case using step r len len1 Suc.prems(2) all rest by (simp add: N_def)
qed

lemma unat_seed_value:
  "unat (seed_value p i) =
     (unat (multipliers p ! i) * unat (args p ! i) * unat (pi_d p)) mod 18446744073709551616"
  by (simp add: seed_value_def unat_word_ariths unat_ucast_up mod_mult_left_eq mod_mult_right_eq
      mult.commute)

lemma two_limbs_of_seed:
  "unat (ucast (drop_bit 32 (seed_value p i)) :: limb_int) * 4294967296
     + unat (ucast (seed_value p i) :: limb_int) = unat (seed_value p i)"
proof -
  have "unat (drop_bit 32 (seed_value p i)) < 4294967296"
    using unat_limb2_less[of "seed_value p i"] by (simp add: unat_drop32)
  then show ?thesis by (simp add: unat_ucast_down unat_drop32)
qed

lemma initialize_variables_seeds:
  assumes "length (multipliers p) = length (args p)"
    and "unat (fractional_size (precision p) + ucast block_width) \<le> vector_max_size"
  shows "\<exists>s. initialize_variables p = Inr s \<and>
     length (quotents s) = 64 * length (args p) \<and>
     args s = args p \<and> arg_sq s = arg_sq p \<and> multipliers s = multipliers p \<and>
     pi_d s = pi_d p \<and> precision s = precision p \<and>
     accumulator s = replicate (unat (fractional_size (precision p) + ucast block_width)) 0 \<and>
     remainder_column s = [] \<and> block_digit_offset s = 0 \<and> block_divisor_offset s = 1 \<and>
     (\<forall>i < length (args p).
        quotents s ! (63 * length (args p) + i) = ucast (seed_value p i) \<and>
        quotents s ! (62 * length (args p) + i) = ucast (drop_bit 32 (seed_value p i))) \<and>
     (\<forall>k < 62 * length (args p). quotents s ! k = 0)"
proof -
  define N where "N = length (args p)"
  define q0 :: "limb_int list" where "q0 = replicate (64 * N) 0"
  from seed_quotents_result[OF assms(1), of 0 q0]
  obtain q' where r: "seed_quotents p 0 q0 = Inr q'" and len: "length q' = 64 * N"
    and set: "\<forall>j. j < N \<longrightarrow>
           q' ! (63 * N + j) = ucast (seed_value p j) \<and>
           q' ! (62 * N + j) = ucast (drop_bit 32 (seed_value p j))"
    and keep: "\<forall>k. (\<forall>j. j < N \<longrightarrow> k \<noteq> 63 * N + j \<and> k \<noteq> 62 * N + j) \<longrightarrow> q' ! k = q0 ! k"
    by (auto simp: N_def q0_def)
  have "\<forall>k < 62 * N. q' ! k = 0"
  proof (intro allI impI)
    fix k assume k: "k < 62 * N"
    then have "q' ! k = q0 ! k" using keep by auto
    then show "q' ! k = 0" using k by (simp add: q0_def)
  qed
  then show ?thesis
    using r len set assms(2)
    by (simp add: initialize_variables_def unat_block_width N_def[symmetric] q0_def[symmetric])
qed

lemma initialize_variables_too_large:
  assumes "vector_max_size < unat (fractional_size (precision p) + ucast block_width)"
  shows "initialize_variables p = Inl Uncaught_Exception"
  using assms by (simp add: initialize_variables_def)

lemma initialize_variables_allocated:
  assumes "initialize_variables p = Inr s"
  shows "unat (fractional_size (precision p) + ucast block_width) \<le> vector_max_size"
  using assms by (simp add: initialize_variables_def split: if_splits)

lemmas accumulator_size_eval = fractional_size_def block_width_def vector_max_size_def

lemmas stoul_eval = stoul_def isspace_c_def isdigit_c_def decimal_value_def digit_value_def
  ulong_max_def

lemmas read_parameters_eval = read_parameters_def stoul_eval limb_max_def arg_max_def limb_bits_def

text \<open>
  Claim C2.  After \<open>initialize_variables\<close> on the parameters that \<open>read_parameters\<close>
  returned, and provided every product \<open>m\<^sub>i * a\<^sub>i * d\<close> is below \<open>2^(2B)\<close>: for every
  term \<open>i\<close> the two limbs \<open>Q[W-2][i]\<close>, \<open>Q[W-1][i]\<close> read as \<open>Q[W-2][i] * 2^B + Q[W-1][i]\<close>
  equal \<open>m\<^sub>i * a\<^sub>i * d\<close>, the vector has \<open>W * N\<close> entries, and every entry of the rows
  \<open>0 .. W-3\<close> is zero.  This holds of every state that \<open>initialize_variables\<close> returns, and
  it returns one whenever the accumulator can be allocated.
\<close>

theorem seeded_two_limbs:
  assumes "read_parameters argv = Inr p"
    and "\<forall>i < length (args p).
           unat (multipliers p ! i) * unat (args p ! i) * unat (pi_d p) < 2 ^ (2 * limb_bits)"
  shows "(unat (fractional_size (precision p) + ucast block_width) \<le> vector_max_size \<longrightarrow>
            (\<exists>s. initialize_variables p = Inr s)) \<and>
         (\<forall>s. initialize_variables p = Inr s \<longrightarrow>
           length (quotents s) = unat block_width * length (args p) \<and>
           (\<forall>i < length (args p).
              unat (quotents s ! (unat (block_width - 2) * length (args p) + i)) * 2 ^ limb_bits
                + unat (quotents s ! (unat (block_width - 1) * length (args p) + i))
              = unat (multipliers p ! i) * unat (args p ! i) * unat (pi_d p)) \<and>
           (\<forall>k < unat (block_width - 2) * length (args p). quotents s ! k = 0))"
proof -
  have len: "length (multipliers p) = length (args p)"
    using read_parameters_ok(1)[OF assms(1)] by (simp add: terms_ok_def)
  have ret: "\<exists>s. initialize_variables p = Inr s"
    if "unat (fractional_size (precision p) + ucast block_width) \<le> vector_max_size"
    using initialize_variables_seeds[OF len that] by blast
  have post: "length (quotents s) = unat block_width * length (args p) \<and>
           (\<forall>i < length (args p).
              unat (quotents s ! (unat (block_width - 2) * length (args p) + i)) * 2 ^ limb_bits
                + unat (quotents s ! (unat (block_width - 1) * length (args p) + i))
              = unat (multipliers p ! i) * unat (args p ! i) * unat (pi_d p)) \<and>
           (\<forall>k < unat (block_width - 2) * length (args p). quotents s ! k = 0)"
    if s: "initialize_variables p = Inr s" for s
  proof -
    from initialize_variables_seeds[OF len initialize_variables_allocated[OF s]] s
    have l: "length (quotents s) = 64 * length (args p)"
      and q: "\<forall>i < length (args p).
          quotents s ! (63 * length (args p) + i) = ucast (seed_value p i) \<and>
          quotents s ! (62 * length (args p) + i) = ucast (drop_bit 32 (seed_value p i))"
      and z: "\<forall>k < 62 * length (args p). quotents s ! k = 0"
      by auto
    have "unat (quotents s ! (62 * length (args p) + i)) * 4294967296
            + unat (quotents s ! (63 * length (args p) + i))
          = unat (multipliers p ! i) * unat (args p ! i) * unat (pi_d p)"
      if i: "i < length (args p)" for i
    proof -
      have "unat (multipliers p ! i) * unat (args p ! i) * unat (pi_d p) < 18446744073709551616"
        using assms(2) i by (simp add: limb_bits_def)
      then have "unat (seed_value p i) = unat (multipliers p ! i) * unat (args p ! i) * unat (pi_d p)"
        by (simp add: unat_seed_value)
      then show ?thesis using q i two_limbs_of_seed[of p i] by simp
    qed
    then show ?thesis
      using l z
      by (simp add: unat_block_width unat_block_width_m1 unat_block_width_m2 limb_bits_def)
  qed
  show ?thesis using ret post by blast
qed

theorem seeded_two_limbs_witness:
  "read_parameters [''pi'', ''1'', ''4'', ''1'', ''5''] =
     Inr \<lparr>precision = 1, pi_d = 4, multipliers = [1], args = [5], arg_sq = [25]\<rparr> \<and>
   (\<exists>s. initialize_variables
          \<lparr>precision = 1, pi_d = 4, multipliers = [1], args = [5], arg_sq = [25]\<rparr> = Inr s \<and>
        length (quotents s) = 64 \<and>
        unat (quotents s ! 62) * 2 ^ limb_bits + unat (quotents s ! 63) = 1 * 5 * 4 \<and>
        quotents s ! 0 = 0)"
proof -
  let ?p = "\<lparr>precision = 1, pi_d = 4, multipliers = [1], args = [5], arg_sq = [25]\<rparr>"
  have r: "read_parameters [''pi'', ''1'', ''4'', ''1'', ''5''] = Inr ?p"
    by (simp add: read_parameters_eval)
  have b: "\<forall>i < length (args ?p).
           unat (multipliers ?p ! i) * unat (args ?p ! i) * unat (pi_d ?p) < 2 ^ (2 * limb_bits)"
    by (simp add: limb_bits_def)
  have a: "unat (fractional_size (precision ?p) + ucast block_width) \<le> vector_max_size"
    by (simp add: accumulator_size_eval)
  from seeded_two_limbs[OF r b] a obtain s where s: "initialize_variables ?p = Inr s"
    by blast
  from seeded_two_limbs[OF r b] s
  have "length (quotents s) = 64 \<and>
        unat (quotents s ! 62) * 2 ^ limb_bits + unat (quotents s ! 63) = 1 * 5 * 4 \<and>
        quotents s ! 0 = 0"
    by (auto simp: unat_block_width unat_block_width_m1 unat_block_width_m2)
  with r s show ?thesis by blast
qed




subsection \<open>Which argument lists read_parameters accepts\<close>

text \<open>
  The strings of one term, \<open>(multiplier, arg)\<close>, pass the two tests of the loop of
  \<open>read_parameters\<close> when both parse, the multiplier is at most \<open>limb_max\<close> and the
  argument at most \<open>arg_max\<close>.
\<close>

definition stoul_value :: "string \<Rightarrow> 64 word" where
  "stoul_value str = (case stoul str of Inr n \<Rightarrow> n | Inl e \<Rightarrow> 0)"

definition term_accepted :: "string \<times> string \<Rightarrow> bool" where
  "term_accepted t =
     (case stoul (fst t) of
        Inl e \<Rightarrow> False
      | Inr m \<Rightarrow> m \<le> limb_max \<and>
          (case stoul (snd t) of Inl e \<Rightarrow> False | Inr a \<Rightarrow> a \<le> arg_max))"

definition flat_terms :: "(string \<times> string) list \<Rightarrow> string list" where
  "flat_terms ts = concat (map (\<lambda>t. [fst t, snd t]) ts)"

lemma flat_terms_simps [simp]:
  "flat_terms [] = []"
  "flat_terms (t # ts) = fst t # snd t # flat_terms ts"
  "flat_terms (ts @ us) = flat_terms ts @ flat_terms us"
  by (simp_all add: flat_terms_def)

lemma read_terms_accepted:
  "list_all term_accepted ts \<Longrightarrow>
   read_terms (flat_terms ts @ rest) (ms, as, sqs) =
   read_terms rest
     (ms @ map (\<lambda>t. ucast (stoul_value (fst t))) ts,
      as @ map (\<lambda>t. ucast (stoul_value (snd t))) ts,
      sqs @ map (\<lambda>t. ucast (stoul_value (snd t) * stoul_value (snd t))) ts)"
proof (induction ts arbitrary: ms as sqs)
  case Nil
  then show ?case by simp
next
  case (Cons t ts)
  from Cons.prems have t: "term_accepted t" and ts: "list_all term_accepted ts"
    by simp_all
  from t obtain m a where
    m: "stoul (fst t) = Inr m" "m \<le> limb_max" and a: "stoul (snd t) = Inr a" "a \<le> arg_max"
    by (auto simp: term_accepted_def split: sum.splits)
  have "read_terms (flat_terms (t # ts) @ rest) (ms, as, sqs) =
        read_terms (flat_terms ts @ rest) (ms @ [ucast m], as @ [ucast a], sqs @ [ucast (a * a)])"
    using m a by (simp add: not_less[symmetric])
  also note Cons.IH[OF ts]
  finally show ?case using m a by (simp add: stoul_value_def)
qed

lemma read_terms_rejects_arg:
  assumes "list_all term_accepted ts" and "stoul sm = Inr m" and "m \<le> limb_max"
    and "stoul sa = Inr a" and "arg_max < a"
  shows "read_terms (flat_terms ts @ sm # sa # rest) acc = Inl (Usage_Exit 1)"
proof -
  obtain ms as sqs where acc: "acc = (ms, as, sqs)" by (cases acc) auto
  show ?thesis
    unfolding acc read_terms_accepted[OF assms(1)]
    using assms(2-5) by (simp add: not_less[symmetric])
qed

lemma read_parameters_accepts:
  assumes "stoul sp = Inr p" and "1 \<le> p" and "stoul sd = Inr d" and "d \<noteq> 0"
    and "list_all term_accepted ts" and "ts \<noteq> []"
  shows "read_parameters (prog # sp # sd # flat_terms ts) =
     Inr \<lparr>precision = p, pi_d = d,
          multipliers = map (\<lambda>t. ucast (stoul_value (fst t))) ts,
          args = map (\<lambda>t. ucast (stoul_value (snd t))) ts,
          arg_sq = map (\<lambda>t. ucast (stoul_value (snd t) * stoul_value (snd t))) ts\<rparr>"
proof -
  have "read_terms (flat_terms ts) ([], [], []) =
     Inr (map (\<lambda>t. ucast (stoul_value (fst t))) ts,
          map (\<lambda>t. ucast (stoul_value (snd t))) ts,
          map (\<lambda>t. ucast (stoul_value (snd t) * stoul_value (snd t))) ts)"
    using read_terms_accepted[OF assms(5), of "[]" "[]" "[]" "[]"] by simp
  then show ?thesis
    using assms(1-4,6) by (simp add: read_parameters_def not_less[symmetric])
qed

lemma read_parameters_rejects_arg:
  assumes "stoul sp = Inr p" and "1 \<le> p" and "stoul sd = Inr d" and "d \<noteq> 0"
    and "list_all term_accepted ts" and "stoul sm = Inr m" and "m \<le> limb_max"
    and "stoul sa = Inr a" and "arg_max < a"
  shows "read_parameters (prog # sp # sd # flat_terms ts @ sm # sa # rest) = Inl (Usage_Exit 1)"
  using assms(1-4) read_terms_rejects_arg[OF assms(5-9)]
  by (simp add: read_parameters_def not_less[symmetric])

lemma read_parameters_no_terms:
  assumes "stoul sp = Inr p" and "1 \<le> p" and "stoul sd = Inr d" and "d \<noteq> 0"
  shows "read_parameters [prog, sp, sd] = Inl (Usage_Exit 1)"
  using assms by (simp add: read_parameters_def not_less[symmetric])

subsection \<open>A zero argument stops the first row with a division by zero\<close>

lemma read_terms_count:
  "read_terms ts (ms, as, sqs) = Inr (ms', as', sqs') \<Longrightarrow> length as' \<le> length as + length ts"
proof (induction ts "(ms, as, sqs)" arbitrary: ms as sqs rule: read_terms.induct)
  case 1
  then show ?case by simp
next
  case (2 sm rest ms as sqs)
  from "2.prems"(1) obtain n sa rest' n' where
    sm: "stoul sm = Inr n" "\<not> limb_max < n" and rest: "rest = sa # rest'"
    and sa: "stoul sa = Inr n'" "\<not> arg_max < n'"
    and rec: "read_terms rest' (ms @ [ucast n], as @ [ucast n'], sqs @ [ucast (n' * n')])
              = Inr (ms', as', sqs')"
    by (auto split: sum.splits if_splits list.splits)
  from "2.hyps"[OF sm rest sa rec] rest show ?case by simp
qed

lemma read_parameters_count:
  assumes "read_parameters argv = Inr p"
  shows "length (args p) \<le> length argv"
proof -
  from assms obtain prog sp sd ts pr d ms as sqs where
    argv: "argv = prog # sp # sd # ts"
    and rt: "read_terms ts ([], [], []) = Inr (ms, as, sqs)"
    and p: "p = \<lparr>precision = pr, pi_d = d, multipliers = ms, args = as, arg_sq = sqs\<rparr>"
    by (auto simp: read_parameters_def split: list.splits sum.splits if_splits)
  from read_terms_count[OF rt] show ?thesis by (simp add: argv p)
qed

lemma term_loop_zero_divisor:
  assumes "sq ! j = 0" and "j < length sq" and "j < unat c" and "\<forall>k<j. sq ! k \<noteq> 0"
  shows "unat i \<le> j \<Longrightarrow> quotent + j < length q \<Longrightarrow> remainder + (j - unat i) < length r \<Longrightarrow>
         term_loop sq c quotent i q r remainder row_sum = Inl Division_By_Zero"
proof (induction "j - unat i" arbitrary: i q r remainder row_sum)
  case 0
  then have ij: "unat i = j" by simp
  then have "i < c" using assms(3) by (simp add: word_less_nat_alt)
  then show ?case
    using 0 ij assms(1,2) by (subst term_loop.simps) simp
next
  case (Suc d)
  define k where "k = unat i"
  have kj: "k < j" using Suc.hyps(2) by (simp add: k_def)
  then have ic: "i < c" using assms(3) by (simp add: word_less_nat_alt k_def)
  have i1: "unat (i + 1) = Suc k"
    using kj assms(3) unat_limb_less[of c] by (simp add: k_def unat_word_ariths)
  have nz: "sq ! k \<noteq> 0" using assms(4) kj by simp
  have b: "\<not> (length r \<le> remainder \<or> length q \<le> quotent + k \<or> length sq \<le> k)"
    using Suc.prems kj assms(2) by (simp add: k_def)
  have d: "d = j - unat (i + 1)" using Suc.hyps(2) i1 by (simp add: k_def)
  show ?case
    apply (subst term_loop.simps)
    using ic b nz apply (simp add: k_def[symmetric] Let_def)
    apply (rule Suc.hyps(1)[OF d])
    using Suc.prems kj i1 apply (simp_all add: k_def)
    done
qed

lemma first_zero_index:
  assumes "(0 :: limb_int) \<in> set xs"
  shows "\<exists>j < length xs. xs ! j = 0 \<and> (\<forall>k<j. xs ! k \<noteq> 0)"
proof -
  from assms obtain i where "i < length xs \<and> xs ! i = 0" by (auto simp: in_set_conv_nth)
  then have "\<exists>i. i < length xs \<and> xs ! i = 0" by blast
  then obtain j where j: "j < length xs \<and> xs ! j = 0"
    and least: "\<forall>k<j. \<not> (k < length xs \<and> xs ! k = 0)"
    using exists_least_iff[of "\<lambda>i. i < length xs \<and> xs ! i = 0"] by blast
  then show ?thesis by (intro exI[of _ j]) auto
qed

lemma first_block_zero_divisor:
  assumes "0 \<in> set (arg_sq s)" and "length (arg_sq s) = length (args s)"
    and "length (args s) < 2 ^ 31" and "length (quotents s) = 64 * length (args s)"
  shows "process_block (s\<lparr>block_divisor_offset := 1\<rparr>)
           \<lparr>arg_count = of_nat (length (args s)),
            remainders = replicate ((length (args s) + 1) * unat block_height) 0\<rparr>
         = Some (Inl Division_By_Zero)"
proof -
  define N where "N = length (args s)"
  from first_zero_index[OF assms(1)] obtain j where
    j: "j < N" "arg_sq s ! j = 0" "\<forall>k<j. arg_sq s ! k \<noteq> 0"
    using assms(2) by (auto simp: N_def)
  define c :: "32 word" where "c = of_nat N"
  have uc: "unat c = N"
    using assms(3) by (simp add: c_def N_def unat_of_nat)
  define r :: "limb_int list" where "r = replicate ((N + 1) * unat block_height) 0"
  have t: "term_loop (arg_sq s) c 0 0 (quotents s) r 0 0 = Inl Division_By_Zero"
    using j assms(2,4)
    by (intro term_loop_zero_divisor[where j=j])
       (simp_all add: uc N_def r_def block_height_def)
  have rne: "0 \<noteq> length r" using j by (simp add: r_def block_height_def)
  have rw: "row_loop (arg_sq s) c 0 (quotents s) r 0 True 1 0 = Inl Division_By_Zero"
    using rne t by (subst row_loop.simps) simp
  have "args s \<noteq> []" using j(1) by (auto simp: N_def)
  then have qne: "0 \<noteq> length (quotents s)" using assms(4) by simp
  have dl: "digit_loop (arg_sq s) N c 1 (quotents s) r (accumulator s) 0 (block_digit_offset s)
            = Some (Inl Division_By_Zero)"
    using qne rw by (subst digit_loop.simps) simp
  then show ?thesis
    by (simp add: process_block_def N_def c_def r_def)
qed

lemma main_loop_zero_divisor:
  assumes "0 \<in> set (arg_sq s)" and "length (arg_sq s) = length (args s)"
    and "length (args s) < 2 ^ 31" and "length (quotents s) = 64 * length (args s)"
    and "remainder_column s = []" and "unat (block_digit_offset s) < length (accumulator s)"
  shows "main_loop s = Some (Inl Division_By_Zero)"
proof -
  define c :: "32 word" where "c = of_nat (length (args s))"
  define r :: "limb_int list" where
    "r = replicate ((length (args s) + 1) * unat block_height) 0"
  define s0 where "s0 = s\<lparr>block_divisor_offset := 1\<rparr>"
  have pb: "process_block s0 \<lparr>arg_count = c, remainders = r\<rparr> = Some (Inl Division_By_Zero)"
    using first_block_zero_divisor[OF assms(1-4)] by (simp add: s0_def c_def r_def)
  have eb: "ensure_block s0 0 c = [\<lparr>arg_count = c, remainders = r\<rparr>]"
    using assms(5) by (simp add: ensure_block_def s0_def r_def)
  have cl: "column_loop s0 c 0 = Some (Inl Division_By_Zero)"
    using pb by (subst column_loop.simps) (simp add: eb)
  show ?thesis
    using cl assms(6) by (subst main_loop.simps) (simp add: s0_def c_def)
qed

subsection \<open>An argument a = 1 never lets the column loop end\<close>

lemma divide_by_one_keeps_limb:
  fixes a b :: limb_int
  shows "(ucast ((push_bit limb_bits (ucast a) + ucast b :: limb2_int) div ucast (1 :: limb_int))
            :: limb_int) = b"
proof -
  have "unat (push_bit limb_bits (ucast a :: limb2_int)) = unat a * 4294967296"
    using unat_limb_less[of a] by (simp add: unat_push32 unat_ucast_up)
  then have "unat (push_bit limb_bits (ucast a) + ucast b :: limb2_int) = unat a * 4294967296 + unat b"
    using unat_limb_less[of a] unat_limb_less[of b] by (simp add: unat_add64 unat_ucast_up)
  then show ?thesis
    using unat_limb_less[of b] by (simp add: word_unat_eq_iff unat_ucast_down)
qed

lemma term_loop_unit_divisor:
  "term_loop [1] c quotent i q r remainder row_sum = Inr (q', r', remainder', row_sum') \<Longrightarrow> q' = q"
proof (induction "[1] :: limb_int list" c quotent i q r remainder row_sum rule: term_loop.induct)
  case (1 c quotent i q r remainder row_sum)
  show ?case
  proof (cases "i < c")
    case False
    then show ?thesis using "1.prems" by (subst (asm) term_loop.simps) simp
  next
    case True
    have nob: "\<not> (length r \<le> remainder \<or> length q \<le> quotent + unat i \<or> length [1 :: limb_int] \<le> unat i)"
      using "1.prems" True by (subst (asm) term_loop.simps) (auto split: if_splits)
    then have i0: "unat i = 0" by simp
    have nz: "[1 :: limb_int] ! unat i \<noteq> 0" using i0 by simp
    define n :: limb2_int where
      "n = push_bit limb_bits (ucast (r ! remainder)) + ucast (q ! (quotent + unat i))"
    define qv :: limb_int where "qv = ucast (n div ucast ([1 :: limb_int] ! unat i))"
    have qv: "qv = q ! quotent"
      unfolding qv_def n_def i0 using divide_by_one_keeps_limb[of "r ! remainder" "q ! quotent"]
      by simp
    have rec: "term_loop [1] c quotent (i + 1) (q[quotent + unat i := qv])
        (r[remainder := ucast (n mod ucast ([1 :: limb_int] ! unat i))]) (remainder + 1)
        (row_sum + ucast qv) = Inr (q', r', remainder', row_sum')"
      using "1.prems" True nob nz
      by (subst (asm) term_loop.simps) (simp add: Let_def n_def qv_def)
    from "1.hyps"[OF True nob nz n_def qv_def rec]
    have "q' = q[quotent + unat i := qv]" .
    then show ?thesis using qv i0 by simp
  qed
qed

lemma row_loop_unit_divisor:
  "row_loop [1] c quotent q r remainder addition divisor delta = Inr (q', r', delta') \<Longrightarrow> q' = q"
proof (induction "[1] :: limb_int list" c quotent q r remainder addition divisor delta
    rule: row_loop.induct)
  case (1 c quotent q r remainder addition divisor delta)
  show ?case
  proof (cases "remainder \<noteq> length r")
    case False
    then show ?thesis using "1.prems" by (subst (asm) row_loop.simps) simp
  next
    case True
    from "1.prems" True obtain q1 r1 remainder1 row_sum where
      t: "term_loop [1] c quotent 0 q r remainder 0 = Inr (q1, r1, remainder1, row_sum)"
      by (subst (asm) row_loop.simps) (auto split: sum.splits)
    have q1: "q1 = q" using term_loop_unit_divisor[OF t] .
    have nob: "\<not> length r1 \<le> remainder1" and dnz: "divisor \<noteq> 0"
      using "1.prems" True t by (subst (asm) row_loop.simps, auto split: if_splits)+
    define row_sum1 where "row_sum1 = row_sum + push_bit limb_bits (ucast (r1 ! remainder1))"
    have rec: "row_loop [1] c quotent q1 (r1[remainder1 := ucast (row_sum1 mod ucast divisor)])
        (remainder1 + 1) (\<not> addition) (divisor + 2)
        (if addition then delta + row_sum1 div ucast divisor
         else delta - row_sum1 div ucast divisor) = Inr (q', r', delta')"
      using "1.prems" True t nob dnz
      by (subst (asm) row_loop.simps) (auto simp: Let_def row_sum1_def split: if_splits)
    from "1.hyps"[OF True t refl refl refl nob row_sum1_def dnz rec] q1
    show ?thesis by simp
  qed
qed

lemma digit_loop_unit_divisor:
  assumes "digit_loop [1] n c divisor0 q r acc quotent digit_offset = Some (Inr (q', r', acc'))"
  shows "q' = q"
proof -
  have "sq = [1] \<longrightarrow> (\<forall>q' r' acc'. y = Inr (q', r', acc') \<longrightarrow> q' = q)"
    if "digit_loop sq n c divisor0 q r acc quotent digit_offset = Some y"
    for sq n c divisor0 q r acc quotent digit_offset y
  proof (rule digit_loop.raw_induct[where P = "\<lambda>sq n c divisor0 q r acc quotent digit_offset y.
      sq = [1] \<longrightarrow> (\<forall>q' r' acc'. y = Inr (q', r', acc') \<longrightarrow> q' = q)", OF _ that])
    fix f :: "limb_int list \<Rightarrow> nat \<Rightarrow> 32 word \<Rightarrow> 32 word \<Rightarrow> limb_int list \<Rightarrow> limb_int list
        \<Rightarrow> limb_int list \<Rightarrow> nat \<Rightarrow> 32 word
        \<Rightarrow> (fault + limb_int list \<times> limb_int list \<times> limb_int list) option"
      and sq n c divisor0 q r acc quotent digit_offset y
    assume IH: "\<And>sq n c divisor0 q r acc quotent digit_offset y.
        f sq n c divisor0 q r acc quotent digit_offset = Some y \<Longrightarrow>
        sq = [1] \<longrightarrow> (\<forall>q' r' acc'. y = Inr (q', r', acc') \<longrightarrow> q' = q)"
      and step: "(if quotent \<noteq> length q
         then case row_loop sq c quotent q r 0 True divisor0 0 of
              Inl e \<Rightarrow> Some (Inl e)
            | Inr (q1, r1, delta) \<Rightarrow>
                (case accumulate acc delta digit_offset of
                   Inl e \<Rightarrow> Some (Inl e)
                 | Inr acc1 \<Rightarrow> f sq n c divisor0 q1 r1 acc1 (quotent + n) (digit_offset + 1))
         else Some (Inr (q, r, acc))) = Some y"
    show "sq = [1] \<longrightarrow> (\<forall>q' r' acc'. y = Inr (q', r', acc') \<longrightarrow> q' = q)"
    proof (intro impI allI)
      fix q' r' acc'
      assume sq: "sq = [1]" and y: "y = Inr (q', r', acc')"
      show "q' = q"
      proof (cases "quotent \<noteq> length q")
        case False
        then show ?thesis using step y by simp
      next
        case True
        from step True y obtain q1 r1 delta acc1 where
          rw: "row_loop sq c quotent q r 0 True divisor0 0 = Inr (q1, r1, delta)"
          and "accumulate acc delta digit_offset = Inr acc1"
          and rec: "f sq n c divisor0 q1 r1 acc1 (quotent + n) (digit_offset + 1) = Some y"
          by (auto split: sum.splits)
        from IH[OF rec] sq y have "q' = q1" by simp
        moreover have "q1 = q" using row_loop_unit_divisor[OF rw[unfolded sq]] .
        ultimately show ?thesis by simp
      qed
    qed
  qed
  from this[OF assms] show ?thesis by simp
qed

definition unit_stuck :: "state \<Rightarrow> bool" where
  "unit_stuck s \<longleftrightarrow>
     arg_sq s = [1] \<and> length (args s) = 1 \<and> length (quotents s) = 64 \<and>
     (\<exists>k. k < 64 \<and> quotents s ! k \<noteq> 0)"

lemma scan_column_finds:
  "length q = i + n \<Longrightarrow> \<exists>k. i \<le> k \<and> k < i + n \<and> q ! k \<noteq> 0 \<Longrightarrow>
   scan_column q 1 i n = Inr True"
proof (induction n arbitrary: i)
  case 0
  then show ?case by auto
next
  case (Suc n)
  show ?case
  proof (cases "q ! i = 0")
    case False
    then show ?thesis using Suc.prems(1) by simp
  next
    case True
    from Suc.prems(2) obtain k where k: "i \<le> k" "k < i + Suc n" "q ! k \<noteq> 0" by blast
    with True have "Suc i \<le> k" by (cases "k = i") auto
    with k have "\<exists>k. Suc i \<le> k \<and> k < Suc i + n \<and> q ! k \<noteq> 0" by auto
    with Suc.IH[of "Suc i"] Suc.prems(1) True show ?thesis by simp
  qed
qed

lemma count_unit_stuck:
  assumes "unit_stuck s"
  shows "count_non_zero_quotents s = Inr 1"
proof -
  have "scan_column (quotents s) 1 0 64 = Inr True"
    using assms by (intro scan_column_finds) (auto simp: unit_stuck_def)
  then show ?thesis
    using assms by (simp add: count_non_zero_quotents_def unit_stuck_def unat_block_width)
qed

lemma process_block_unit_stuck:
  assumes "process_block s block = Some (Inr (s1, block1))" and "unit_stuck s"
  shows "unit_stuck (s1\<lparr>remainder_column := rc, block_divisor_offset := dv\<rparr>)"
proof -
  from assms(1) obtain q r acc where
    d: "digit_loop (arg_sq s) (length (args s)) (arg_count block) (block_divisor_offset s)
          (quotents s) (remainders block) (accumulator s) 0 (block_digit_offset s)
        = Some (Inr (q, r, acc))"
    and s1: "s1 = s\<lparr>accumulator := acc, quotents := q\<rparr>"
    by (auto simp: process_block_def split: option.splits sum.splits)
  have "q = quotents s"
    using digit_loop_unit_divisor[OF d[unfolded assms(2)[unfolded unit_stuck_def, THEN conjunct1]]] .
  then show ?thesis using assms(2) by (simp add: s1 unit_stuck_def)
qed

lemma column_loop_unit_stuck:
  assumes "column_loop s next_arg_count column_index = Some y" and "unit_stuck s"
  shows "\<exists>e. y = Inl e"
proof -
  have "unit_stuck s \<longrightarrow> (\<exists>e. y = Inl e)"
    if "column_loop s next_arg_count column_index = Some y"
    for s next_arg_count column_index y
  proof (rule column_loop.raw_induct[where P = "\<lambda>s next_arg_count column_index y.
      unit_stuck s \<longrightarrow> (\<exists>e. y = Inl e)", OF _ that])
    fix f :: "state \<Rightarrow> 32 word \<Rightarrow> 32 word \<Rightarrow> (fault + state) option"
      and s next_arg_count column_index y
    assume IH: "\<And>s next_arg_count column_index y.
        f s next_arg_count column_index = Some y \<Longrightarrow> unit_stuck s \<longrightarrow> (\<exists>e. y = Inl e)"
      and step: "(let rc = ensure_block s column_index next_arg_count
      in if length rc \<le> unat column_index then Some (Inl Out_Of_Bounds)
         else let block = (rc ! unat column_index)
                    \<lparr>arg_count := max (arg_count (rc ! unat column_index)) next_arg_count\<rparr>
              in case process_block s block of
                   None \<Rightarrow> None
                 | Some (Inl e) \<Rightarrow> Some (Inl e)
                 | Some (Inr (s1, block1)) \<Rightarrow>
                     (let s2 = s1\<lparr>remainder_column := rc[unat column_index := block1]\<rparr>
                      in case count_non_zero_quotents s2 of
                           Inl e \<Rightarrow> Some (Inl e)
                         | Inr next_arg_count1 \<Rightarrow>
                             (let s3 = s2\<lparr>block_divisor_offset :=
                                             block_divisor_offset s2 + 2 * block_height\<rparr>
                              in if unat (column_index + 1) < length (remainder_column s3)
                                    \<or> 0 < next_arg_count1
                                 then f s3 next_arg_count1 (column_index + 1)
                                 else Some (Inr s3)))) = Some y"
    show "unit_stuck s \<longrightarrow> (\<exists>e. y = Inl e)"
    proof
      assume st: "unit_stuck s"
      define rc where "rc = ensure_block s column_index next_arg_count"
      define block where "block = (rc ! unat column_index)
          \<lparr>arg_count := max (arg_count (rc ! unat column_index)) next_arg_count\<rparr>"
      show "\<exists>e. y = Inl e"
      proof (cases "length rc \<le> unat column_index")
        case True
        then show ?thesis using step by (auto simp: rc_def[symmetric])
      next
        case inb: False
        show ?thesis
        proof (cases "process_block s block")
          case None
          then show ?thesis
            using step inb by (simp add: rc_def[symmetric] Let_def block_def[symmetric])
        next
          case (Some res)
          show ?thesis
          proof (cases res)
            case (Inl e)
            then show ?thesis
              using step inb Some by (auto simp: rc_def[symmetric] Let_def block_def[symmetric])
          next
            case (Inr pr)
            obtain s1 block1 where pr: "pr = (s1, block1)" by (cases pr)
            define s2 where "s2 = s1\<lparr>remainder_column := rc[unat column_index := block1]\<rparr>"
            define s3 where
              "s3 = s2\<lparr>block_divisor_offset := block_divisor_offset s2 + 2 * block_height\<rparr>"
            have pb: "process_block s block = Some (Inr (s1, block1))"
              using Some Inr pr by simp
            have st3: "unit_stuck s3"
              using process_block_unit_stuck[OF pb st] by (simp add: s3_def s2_def)
            have st2: "unit_stuck s2"
              using st3 by (simp add: s3_def unit_stuck_def)
            have cnt: "count_non_zero_quotents s2 = Inr 1"
              using count_unit_stuck[OF st2] .
            have "f s3 1 (column_index + 1) = Some y"
              using step inb pb cnt
              by (simp add: rc_def[symmetric] Let_def block_def[symmetric] s2_def[symmetric]
                  s3_def[symmetric])
            from IH[OF this] st3 show ?thesis by simp
          qed
        qed
      qed
    qed
  qed
  from this[OF assms(1)] assms(2) show ?thesis by simp
qed

lemma main_loop_unit_stuck:
  assumes "unit_stuck s" and "unat (block_digit_offset s) < length (accumulator s)"
  shows "main_loop s \<noteq> Some (Inr s')"
proof
  assume a: "main_loop s = Some (Inr s')"
  have st: "unit_stuck (s\<lparr>block_divisor_offset := 1\<rparr>)"
    using assms(1) by (simp add: unit_stuck_def)
  show False
  proof (cases "column_loop (s\<lparr>block_divisor_offset := 1\<rparr>) (of_nat (length (args s))) 0")
    case None
    then show ?thesis using a assms(2) by (subst (asm) main_loop.simps) simp
  next
    case (Some y)
    from column_loop_unit_stuck[OF Some st] obtain e where "y = Inl e" by blast
    then show ?thesis using a assms(2) Some by (subst (asm) main_loop.simps) simp
  qed
qed

section \<open>Runs of the whole program\<close>

text \<open>
  A run returns normally when \<open>main\<close> reaches its end: the result then carries the text
  written to \<open>cout\<close> and the exit code.
\<close>

definition returns_normally :: "(fault + string \<times> int) option \<Rightarrow> bool" where
  "returns_normally res = (case res of Some (Inr r) \<Rightarrow> True | _ \<Rightarrow> False)"

lemma main_accepted:
  assumes "read_parameters argv = Inr p"
  shows "main argv =
     (case initialize_variables p of
        Inl e \<Rightarrow> Some (Inl e)
      | Inr s \<Rightarrow>
          (case main_loop s of
             None \<Rightarrow> None
           | Some (Inl e) \<Rightarrow> Some (Inl e)
           | Some (Inr s1) \<Rightarrow>
               (case print_integer_part (accumulator s1) of
                  Inl e \<Rightarrow> Some (Inl e)
                | Inr (acc1, out1) \<Rightarrow>
                    (case print_fractional_part acc1 of
                       Inl e \<Rightarrow> Some (Inl e)
                     | Inr (acc2, out2) \<Rightarrow> Some (Inr (out1 @ out2 @ [CHR 0x0A], 0))))))"
proof -
  have "3 < length argv" using read_parameters_ok(5)[OF assms] .
  then have "argv \<noteq> []" "tl argv \<noteq> []" by (cases argv; cases "tl argv"; simp)+
  then show ?thesis using assms by (simp add: main_def)
qed

lemma main_rejected:
  assumes "read_parameters argv = Inl e" and "1 < length argv"
  shows "main argv = Some (Inl e)"
proof -
  have "argv \<noteq> []" "tl argv \<noteq> []" using assms(2) by (cases argv; cases "tl argv"; simp)+
  then show ?thesis using assms(1) by (simp add: main_def)
qed

lemma main_exit_code:
  "main argv = Some (Inr (out, code)) \<Longrightarrow> code = 0"
  by (auto simp: main_def split: if_splits sum.splits option.splits)

lemma seed_halves_nonzero:
  assumes "seed_value p i \<noteq> 0"
  shows "(ucast (seed_value p i) :: limb_int) \<noteq> 0 \<or>
         (ucast (drop_bit 32 (seed_value p i)) :: limb_int) \<noteq> 0"
proof (rule ccontr)
  assume "\<not> ?thesis"
  then have "unat (seed_value p i) = 0"
    using two_limbs_of_seed[of p i] by simp
  with assms show False by (simp add: unat_eq_zero)
qed

lemma main_unit_argument:
  assumes "read_parameters argv = Inr p" and "args p = [1]" and "seed_value p 0 \<noteq> 0"
    and "fractional_size (precision p) + ucast block_width \<noteq> 0"
    and "unat (fractional_size (precision p) + ucast block_width) \<le> vector_max_size"
  shows "\<not> returns_normally (main argv)"
proof -
  note ok = read_parameters_ok(1)[OF assms(1), unfolded terms_ok_def]
  have len: "length (multipliers p) = length (args p)" using ok by simp
  have sq: "arg_sq p = [1]" using ok assms(2) by simp
  from initialize_variables_seeds[OF len assms(5)]
  obtain s where s: "initialize_variables p = Inr s"
    and l: "length (quotents s) = 64 * length (args p)"
    and f: "args s = args p" "arg_sq s = arg_sq p" "block_digit_offset s = 0"
      "accumulator s = replicate (unat (fractional_size (precision p) + ucast block_width)) 0"
    and q: "\<forall>i < length (args p).
        quotents s ! (63 * length (args p) + i) = ucast (seed_value p i) \<and>
        quotents s ! (62 * length (args p) + i) = ucast (drop_bit 32 (seed_value p i))"
    by blast
  have "quotents s ! 63 \<noteq> 0 \<or> quotents s ! 62 \<noteq> 0"
    using q assms(2) seed_halves_nonzero[OF assms(3)] by simp
  then have "\<exists>k. k < 64 \<and> quotents s ! k \<noteq> 0"
  proof
    assume "quotents s ! 63 \<noteq> 0"
    then show ?thesis by (intro exI[of _ 63]) simp
  next
    assume "quotents s ! 62 \<noteq> 0"
    then show ?thesis by (intro exI[of _ 62]) simp
  qed
  then have st: "unit_stuck s"
    using l f assms(2) sq by (simp add: unit_stuck_def)
  have "0 < unat (fractional_size (precision p) + ucast block_width)"
    using assms(4) by (simp add: unat_gt_0)
  then have "unat (block_digit_offset s) < length (accumulator s)"
    using f by simp
  from main_loop_unit_stuck[OF st this]
  have "\<And>s'. main_loop s \<noteq> Some (Inr s')" .
  then show ?thesis
    unfolding main_accepted[OF assms(1)] returns_normally_def s
    by (auto split: option.splits sum.splits)
qed

lemma main_zero_argument:
  assumes "read_parameters argv = Inr p" and "0 \<in> set (args p)" and "length argv < 2 ^ 31"
    and "fractional_size (precision p) + ucast block_width \<noteq> 0"
    and "unat (fractional_size (precision p) + ucast block_width) \<le> vector_max_size"
  shows "main argv = Some (Inl Division_By_Zero)"
    and "\<exists>s. initialize_variables p = Inr s \<and>
           process_block (s\<lparr>block_divisor_offset := 1\<rparr>)
             \<lparr>arg_count = of_nat (length (args s)),
              remainders = replicate ((length (args s) + 1) * unat block_height) 0\<rparr>
           = Some (Inl Division_By_Zero)"
proof -
  note ok = read_parameters_ok(1)[OF assms(1), unfolded terms_ok_def]
  have len: "length (multipliers p) = length (args p)" using ok by simp
  have sq: "arg_sq p = map (\<lambda>a. a * a) (args p)" using ok by simp
  have z: "0 \<in> set (arg_sq p)"
    unfolding sq using assms(2) by (auto simp: image_iff intro!: bexI[of _ 0])
  have n: "length (args p) < 2 ^ 31"
    using read_parameters_count[OF assms(1)] assms(3) by simp
  from initialize_variables_seeds[OF len assms(5)]
  obtain s where s: "initialize_variables p = Inr s"
    and l: "length (quotents s) = 64 * length (args p)"
    and f: "args s = args p" "arg_sq s = arg_sq p" "block_digit_offset s = 0"
      "remainder_column s = []"
      "accumulator s = replicate (unat (fractional_size (precision p) + ucast block_width)) 0"
    by blast
  have "0 < unat (fractional_size (precision p) + ucast block_width)"
    using assms(4) by (simp add: unat_gt_0)
  then have nonempty: "unat (block_digit_offset s) < length (accumulator s)"
    using f by simp
  have pre: "0 \<in> set (arg_sq s)" "length (arg_sq s) = length (args s)"
    "length (args s) < 2 ^ 31" "length (quotents s) = 64 * length (args s)"
    using z sq n l f by simp_all
  have "main_loop s = Some (Inl Division_By_Zero)"
    using main_loop_zero_divisor[OF pre f(4) nonempty] .
  then show "main argv = Some (Inl Division_By_Zero)"
    unfolding main_accepted[OF assms(1)] s by simp
  show "\<exists>s. initialize_variables p = Inr s \<and>
           process_block (s\<lparr>block_divisor_offset := 1\<rparr>)
             \<lparr>arg_count = of_nat (length (args s)),
              remainders = replicate ((length (args s) + 1) * unat block_height) 0\<rparr>
           = Some (Inl Division_By_Zero)"
    using s first_block_zero_divisor[OF pre] by blast
qed

text \<open>
  Claim C5.  The claim is that the run \<open>precision = 4, d = 4, m = 1, a = 1\<close> terminates and
  prints a text that begins \<open>3.14159\<close>.  The program does not: the arguments are accepted,
  \<open>arg_sq\<close> is \<open>[1]\<close>, a division by 1 leaves every quotient limb as it is, so
  \<open>count_non_zero_quotents\<close> answers 1 after every block and the \<open>do ... while\<close> loop of
  \<open>main\<close> never ends.  The run never reaches the two print functions.
\<close>

theorem unit_argument_run_never_prints:
  "read_parameters [''pi'', ''4'', ''4'', ''1'', ''1''] =
     Inr \<lparr>precision = 4, pi_d = 4, multipliers = [1], args = [1], arg_sq = [1]\<rparr> \<and>
   \<not> returns_normally (main [''pi'', ''4'', ''4'', ''1'', ''1''])"
proof -
  let ?p = "\<lparr>precision = 4, pi_d = 4, multipliers = [1], args = [1], arg_sq = [1]\<rparr>"
  have r: "read_parameters [''pi'', ''4'', ''4'', ''1'', ''1''] = Inr ?p"
    by (simp add: read_parameters_eval)
  have "\<not> returns_normally (main [''pi'', ''4'', ''4'', ''1'', ''1''])"
    by (rule main_unit_argument[OF r])
       (simp_all add: seed_value_def accumulator_size_eval)
  with r show ?thesis by simp
qed

text \<open>
  The validation.  With a well-formed precision and scale and well-formed terms before it: a
  term whose argument is \<open>2^(B/2) - 1\<close> is accepted (the arguments are accepted when the
  terms after it are well-formed too); a term whose argument is \<open>2^(B/2)\<close> ends the run with
  the usage text and exit code 1, whatever follows it; an argument list with no term ends
  the run the same way.
\<close>

lemma validation_bounds:
  assumes "stoul sp = Inr pr" and "1 \<le> pr" and "stoul sd = Inr d" and "d \<noteq> 0"
    and "list_all term_accepted ts" and "list_all term_accepted us"
    and "stoul sm = Inr m" and "m \<le> limb_max"
    and "stoul sa = Inr (2 ^ (limb_bits div 2) - 1)"
    and "stoul sb = Inr (2 ^ (limb_bits div 2))"
  shows "(\<exists>p. read_parameters (prog # sp # sd # flat_terms (ts @ (sm, sa) # us)) = Inr p \<and>
              args p ! length ts = 2 ^ (limb_bits div 2) - 1) \<and>
         main (prog # sp # sd # flat_terms ts @ sm # sb # rest) = Some (Inl (Usage_Exit 1)) \<and>
         main [prog, sp, sd] = Some (Inl (Usage_Exit 1))"
proof -
  have acc: "term_accepted (sm, sa)"
    using assms(7-9) by (simp add: term_accepted_def arg_max_def limb_bits_def)
  then have all: "list_all term_accepted (ts @ (sm, sa) # us)"
    using assms(5,6) by simp
  have "stoul_value sa = 65535" using assms(9) by (simp add: stoul_value_def limb_bits_def)
  then have a: "\<exists>p. read_parameters (prog # sp # sd # flat_terms (ts @ (sm, sa) # us)) = Inr p \<and>
              args p ! length ts = 2 ^ (limb_bits div 2) - 1"
    using read_parameters_accepts[OF assms(1-4) all, of prog]
    by (simp add: nth_append limb_bits_def)
  have big: "arg_max < 2 ^ (limb_bits div 2)"
    by (simp add: arg_max_def limb_bits_def)
  have "read_parameters (prog # sp # sd # flat_terms ts @ sm # sb # rest) = Inl (Usage_Exit 1)"
    using read_parameters_rejects_arg[OF assms(1-5) assms(7,8) assms(10) big] .
  then have b: "main (prog # sp # sd # flat_terms ts @ sm # sb # rest) = Some (Inl (Usage_Exit 1))"
    by (rule main_rejected) simp
  have c: "main [prog, sp, sd] = Some (Inl (Usage_Exit 1))"
    using read_parameters_no_terms[OF assms(1-4)] by (rule main_rejected) simp
  show ?thesis using a b c by blast
qed

lemma validation_bounds_instance:
  "(\<exists>p. read_parameters [''pi'', ''1'', ''4'', ''1'', ''65535''] = Inr p \<and> args p ! 0 = 65535) \<and>
   main [''pi'', ''1'', ''4'', ''1'', ''65536''] = Some (Inl (Usage_Exit 1)) \<and>
   main [''pi'', ''1'', ''4''] = Some (Inl (Usage_Exit 1))"
proof -
  have s: "stoul ''1'' = Inr 1" "(1 :: 64 word) \<le> 1" "stoul ''4'' = Inr 4" "(4 :: 64 word) \<noteq> 0"
    "list_all term_accepted []" "(1 :: 64 word) \<le> limb_max"
    "stoul ''65535'' = Inr (2 ^ (limb_bits div 2) - 1)"
    "stoul ''65536'' = Inr (2 ^ (limb_bits div 2))"
    by (simp_all add: stoul_eval limb_max_def limb_bits_def)
  from validation_bounds[OF s(1-5) s(5) s(1) s(6-8), of "''pi''" "[]"]
  show ?thesis by (simp add: limb_bits_def)
qed

lemma round_up_64:
  fixes n :: nat
  shows "(n + 63) div 64 * 64 = (if n mod 64 = 0 then n else (n div 64 + 1) * 64)"
proof -
  define q where "q = n div 64"
  define r where "r = n mod 64"
  have n: "n = 64 * q + r" and r: "r < 64" by (simp_all add: q_def r_def)
  show ?thesis
  proof (cases "r = 0")
    case True
    then have "(n + 63) div 64 = q" using n by simp
    then show ?thesis using True n by (simp add: r_def[symmetric] q_def[symmetric])
  next
    case False
    have "n + 63 = 64 * (q + 1) + (r - 1)" using n False by simp
    moreover have "r - 1 < 64" using r by simp
    ultimately have "(n + 63) div 64 = q + 1" by simp
    then show ?thesis using False by (simp add: r_def[symmetric] q_def[symmetric])
  qed
qed

lemma unat_fractional_size:
  assumes "unat pr \<le> 2305843009213693824"
  shows "unat (fractional_size pr) = (unat pr + 63) div 64 * 64"
proof (cases "unat pr mod 64 = 0")
  case True
  then have "pr mod ucast block_width = 0"
    by (simp add: word_unat_eq_iff unat_mod block_width_def)
  then show ?thesis using True by (simp add: fractional_size_def round_up_64)
next
  case False
  then have nz: "pr mod ucast block_width \<noteq> 0"
    by (simp add: word_unat_eq_iff unat_mod block_width_def)
  have "unat pr div 64 \<le> 2305843009213693824 div 64" using assms by (rule div_le_mono)
  then have "unat pr div 64 \<le> 36028797018963966" by simp
  then have "unat ((pr div 64 + 1) * 64) = (unat pr div 64 + 1) * 64"
    by (simp add: unat_word_ariths unat_div)
  then show ?thesis using nz False by (simp add: fractional_size_def block_width_def round_up_64)
qed

text \<open>
  For a precision from 1 to \<open>2^61 - 128\<close> the accumulator is allocated and has at least 128
  limbs.
\<close>

lemma accumulator_allocated:
  assumes "1 \<le> pr" and "unat pr \<le> 2305843009213693824"
  shows "fractional_size pr + ucast block_width \<noteq> 0"
    and "unat (fractional_size pr + ucast block_width) \<le> vector_max_size"
proof -
  have pos: "1 \<le> unat pr" using assms(1) by (simp add: word_le_nat_alt)
  have fs: "unat (fractional_size pr) = (unat pr + 63) div 64 * 64"
    by (rule unat_fractional_size[OF assms(2)])
  have "unat pr + 63 \<le> 2305843009213693887" using assms(2) by simp
  then have "(unat pr + 63) div 64 \<le> 2305843009213693887 div 64" by (rule div_le_mono)
  then have b: "(unat pr + 63) div 64 * 64 \<le> 2305843009213693824" by simp
  have u: "unat (fractional_size pr + ucast block_width) = (unat pr + 63) div 64 * 64 + 64"
    using b by (simp add: unat_word_ariths fs block_width_def)
  show "unat (fractional_size pr + ucast block_width) \<le> vector_max_size"
    unfolding u using b by (simp add: vector_max_size_def)
  have "unat (fractional_size pr + ucast block_width) \<noteq> 0" unfolding u by simp
  then show "fractional_size pr + ucast block_width \<noteq> 0" by (simp add: unat_eq_zero)
qed

text \<open>
  Claim C10, as amended.  \<open>read_parameters\<close> only rejects an argument above \<open>arg_max\<close>, so an
  argument 0 is accepted.  For every accepted command line (of fewer than \<open>2^31\<close> strings,
  \<open>argc\<close> being an \<open>int\<close>) that contains a term with \<open>a\<^sub>i = 0\<close> and whose accumulator is
  allocated and not empty, the first call of \<open>process_block\<close> stops in its first row with a
  division by zero, and so does the run.  The accumulator is allocated and not empty when
  its length \<open>fractional_size + block_width\<close>, taken modulo \<open>2^64\<close>, is neither 0 nor above
  \<open>max_size()\<close>; every precision from 1 to \<open>2^61 - 128\<close> is such.  The claim as stated fails
  for the precision \<open>2^64 - 64\<close>, where the length wraps to 0: the main loop is not entered
  and \<open>process_block\<close> is never called (\<open>zero_argument_empty_accumulator\<close>).
\<close>

theorem zero_argument_divides_by_zero:
  assumes "read_parameters argv = Inr p" and "0 \<in> set (args p)" and "length argv < 2 ^ 31"
  shows "(fractional_size (precision p) + ucast block_width \<noteq> 0 \<and>
          unat (fractional_size (precision p) + ucast block_width) \<le> vector_max_size \<longrightarrow>
            main argv = Some (Inl Division_By_Zero) \<and>
            (\<exists>s. initialize_variables p = Inr s \<and>
               process_block (s\<lparr>block_divisor_offset := 1\<rparr>)
                 \<lparr>arg_count = of_nat (length (args s)),
                  remainders = replicate ((length (args s) + 1) * unat block_height) 0\<rparr>
               = Some (Inl Division_By_Zero))) \<and>
         (unat (precision p) \<le> 2 ^ 61 - 128 \<longrightarrow>
            fractional_size (precision p) + ucast block_width \<noteq> 0 \<and>
            unat (fractional_size (precision p) + ucast block_width) \<le> vector_max_size)"
proof -
  have "1 \<le> precision p" using read_parameters_ok(4)[OF assms(1)] .
  then have "unat (precision p) \<le> 2 ^ 61 - 128 \<longrightarrow>
            fractional_size (precision p) + ucast block_width \<noteq> 0 \<and>
            unat (fractional_size (precision p) + ucast block_width) \<le> vector_max_size"
    using accumulator_allocated[of "precision p"] by simp
  then show ?thesis using main_zero_argument[OF assms] by blast
qed

theorem zero_argument_divides_by_zero_witness:
  "read_parameters [''pi'', ''1'', ''4'', ''1'', ''0''] =
     Inr \<lparr>precision = 1, pi_d = 4, multipliers = [1], args = [0], arg_sq = [0]\<rparr> \<and>
   main [''pi'', ''1'', ''4'', ''1'', ''0''] = Some (Inl Division_By_Zero)"
proof -
  let ?p = "\<lparr>precision = 1, pi_d = 4, multipliers = [1], args = [0], arg_sq = [0]\<rparr>"
  have r: "read_parameters [''pi'', ''1'', ''4'', ''1'', ''0''] = Inr ?p"
    by (simp add: read_parameters_eval)
  have "main [''pi'', ''1'', ''4'', ''1'', ''0''] = Some (Inl Division_By_Zero)"
    using zero_argument_divides_by_zero[OF r]
    by (simp add: accumulator_size_eval)
  with r show ?thesis by simp
qed

theorem zero_argument_empty_accumulator:
  "read_parameters [''pi'', ''18446744073709551552'', ''4'', ''1'', ''0''] =
     Inr \<lparr>precision = 18446744073709551552, pi_d = 4, multipliers = [1], args = [0],
          arg_sq = [0]\<rparr> \<and>
   main [''pi'', ''18446744073709551552'', ''4'', ''1'', ''0''] = Some (Inl Out_Of_Bounds)"
proof -
  let ?p = "\<lparr>precision = 18446744073709551552, pi_d = 4, multipliers = [1], args = [0],
          arg_sq = [0]\<rparr>"
  have r: "read_parameters [''pi'', ''18446744073709551552'', ''4'', ''1'', ''0''] = Inr ?p"
    by (simp add: read_parameters_eval)
  have len: "length (multipliers ?p) = length (args ?p)" by simp
  have al: "unat (fractional_size (precision ?p) + ucast block_width) \<le> vector_max_size"
    by (simp add: accumulator_size_eval)
  from initialize_variables_seeds[OF len al]
  obtain s where s: "initialize_variables ?p = Inr s"
    and f: "block_digit_offset s = 0"
      "accumulator s = replicate (unat (fractional_size (precision ?p) + ucast block_width)) 0"
    by blast
  have e: "accumulator s = []"
    using f(2) by (simp add: fractional_size_def block_width_def)
  have ml: "main_loop s = Some (Inr s)"
    using e by (subst main_loop.simps) simp
  have pi: "print_integer_part [] = Inl Out_Of_Bounds"
    by (simp add: print_integer_part_def skip_zero_limbs.simps block_width_def)
  have "main [''pi'', ''18446744073709551552'', ''4'', ''1'', ''0''] = Some (Inl Out_Of_Bounds)"
    unfolding main_accepted[OF r] s using ml e pi by simp
  with r show ?thesis by simp
qed

section \<open>What print_integer_part prints\<close>

text \<open>
  The digit pushed in each round of \<open>print_integer_part\<close> is
  \<open>accumulator[block_width - 1] % 10\<close>, the last limb modulo 10, and the integer is then
  divided by 10.  For an integer \<open>v\<close> held in the top limbs the digits pushed are
  therefore those of \<open>emitted_digits v\<close>, least significant first.
\<close>

function emitted_digits :: "nat \<Rightarrow> string" where
  "emitted_digits v =
     (if v = 0 then []
      else char_of (48 + v mod 4294967296 mod 10) # emitted_digits (v div 10))"
  by pat_completeness auto
termination
  by (relation "measure id") auto

declare emitted_digits.simps [simp del]

lemma limbs_val_less: "limbs_val xs < 4294967296 ^ length xs"
proof (induction xs rule: rev_induct)
  case Nil
  then show ?case by simp
next
  case (snoc x xs)
  have "limbs_val xs * 4294967296 + unat x < (limbs_val xs + 1) * 4294967296"
    using unat_limb_less[of x] by simp
  also have "\<dots> \<le> 4294967296 ^ length xs * 4294967296"
    using snoc.IH by (intro mult_le_mono1) simp
  finally show ?case by simp
qed

lemma limbs_val_zeros: "(\<forall>j < length xs. xs ! j = 0) \<Longrightarrow> limbs_val xs = 0"
proof (induction xs rule: rev_induct)
  case Nil
  then show ?case by simp
next
  case (snoc x xs)
  have "\<forall>j < length xs. xs ! j = 0"
    using snoc.prems by (auto simp: nth_append split: if_splits dest!: spec)
  moreover have "x = 0" using snoc.prems by (auto simp: nth_append dest!: spec[of _ "length xs"])
  ultimately show ?case using snoc.IH by simp
qed

lemma limbs_val_small_prefix:
  "limbs_val xs < 4294967296 ^ (length xs - f) \<Longrightarrow> j < f \<Longrightarrow> j < length xs \<Longrightarrow> xs ! j = 0"
proof (induction xs arbitrary: f j)
  case Nil
  then show ?case by simp
next
  case (Cons x xs)
  obtain g where f: "f = Suc g" using Cons.prems(2) by (cases f) auto
  have v: "unat x * 4294967296 ^ length xs + limbs_val xs < 4294967296 ^ (length xs - g)"
    using Cons.prems(1) by (simp add: limbs_val_Cons f)
  have x0: "x = 0"
  proof (rule ccontr)
    assume "x \<noteq> 0"
    then have "1 \<le> unat x" by (simp add: unat_gt_0 Suc_leI)
    then have "(4294967296 :: nat) ^ length xs \<le> unat x * 4294967296 ^ length xs" by simp
    moreover have "(4294967296 :: nat) ^ (length xs - g) \<le> 4294967296 ^ length xs"
      by (intro power_increasing) simp_all
    ultimately show False using v by linarith
  qed
  show ?case
  proof (cases j)
    case 0
    then show ?thesis using x0 by simp
  next
    case (Suc i)
    have "limbs_val xs < 4294967296 ^ (length xs - g)" using v by simp
    from Cons.IH[OF this, of i] Cons.prems(2,3) Suc f show ?thesis by simp
  qed
qed

lemma limbs_val_prefix_zero_small:
  assumes "\<forall>j < f. xs ! j = 0" and "f \<le> length xs"
  shows "limbs_val xs < 4294967296 ^ (length xs - f)"
proof -
  have "limbs_val (take f xs) = 0"
    using assms by (intro limbs_val_zeros) simp
  then have "limbs_val xs = limbs_val (drop f xs)"
    using limbs_val_split[of xs f] by simp
  then show ?thesis using limbs_val_less[of "drop f xs"] by simp
qed

lemma divide_by_10_returns:
  "64 \<le> length acc \<Longrightarrow> \<exists>acc'. divide_by_10 acc i n = Inr acc'"
proof (induction acc i n rule: divide_by_10.induct)
  case (1 acc i n)
  show ?case
  proof (cases "i < block_width")
    case False
    then show ?thesis by (subst divide_by_10.simps) simp
  next
    case True
    then have "unat i < 64" by (simp add: word_less_nat_alt block_width_def)
    then have inb: "\<not> length acc \<le> unat i" using "1.prems" by simp
    from "1.IH"[OF True inb refl] "1.prems"
    show ?thesis using True inb by (subst divide_by_10.simps) (simp add: Let_def)
  qed
qed

lemma skip_zero_limbs_returns:
  "64 \<le> length acc \<Longrightarrow> unat f \<le> 64 \<Longrightarrow>
   \<exists>f'. skip_zero_limbs acc f = Inr f' \<and> unat f \<le> unat f' \<and> unat f' \<le> 64 \<and>
        (\<forall>j. unat f \<le> j \<and> j < unat f' \<longrightarrow> acc ! j = 0) \<and>
        (unat f' < 64 \<longrightarrow> acc ! unat f' \<noteq> 0)"
proof (induction acc f rule: skip_zero_limbs.induct)
  case (1 acc f)
  show ?case
  proof (cases "f < block_width")
    case False
    then have "unat f = 64" using "1.prems"(2) by (simp add: word_less_nat_alt block_width_def)
    then show ?thesis using False by (subst skip_zero_limbs.simps) auto
  next
    case True
    then have k64: "unat f < 64" by (simp add: word_less_nat_alt block_width_def)
    then have inb: "\<not> length acc \<le> unat f" using "1.prems"(1) by simp
    have s: "unat (f + 1) = Suc (unat f)" using k64 by (simp add: unat_word_ariths)
    show ?thesis
    proof (cases "acc ! unat f = 0")
      case False
      then show ?thesis using True inb k64 by (subst skip_zero_limbs.simps) auto
    next
      case z: True
      from "1.IH"[OF True inb z "1.prems"(1)] s k64
      obtain f' where r: "skip_zero_limbs acc (f + 1) = Inr f'"
        and b: "Suc (unat f) \<le> unat f'" "unat f' \<le> 64"
        and zs: "\<forall>j. Suc (unat f) \<le> j \<and> j < unat f' \<longrightarrow> acc ! j = 0"
        and nz: "unat f' < 64 \<longrightarrow> acc ! unat f' \<noteq> 0"
        by auto
      have "\<forall>j. unat f \<le> j \<and> j < unat f' \<longrightarrow> acc ! j = 0"
      proof (intro allI impI)
        fix j assume "unat f \<le> j \<and> j < unat f'"
        then show "acc ! j = 0" using zs z by (cases "j = unat f") auto
      qed
      moreover have "skip_zero_limbs acc f = Inr f'"
        using True inb z r by (subst skip_zero_limbs.simps) simp
      ultimately show ?thesis using b nz by auto
    qed
  qed
qed

definition leading_zeros :: "limb_int list \<Rightarrow> 32 word \<Rightarrow> bool" where
  "leading_zeros acc f \<longleftrightarrow>
     64 \<le> length acc \<and> unat f \<le> 64 \<and> (\<forall>j < unat f. acc ! j = 0) \<and>
     (unat f < 64 \<longrightarrow> acc ! unat f \<noteq> 0)"

lemma leading_zeros_value:
  assumes "leading_zeros acc f"
  shows "f < block_width \<longleftrightarrow> limbs_val (take 64 acc) \<noteq> 0"
proof
  assume "f < block_width"
  then have k: "unat f < 64" by (simp add: word_less_nat_alt block_width_def)
  then have "acc ! unat f \<noteq> 0" using assms by (simp add: leading_zeros_def)
  then have "0 < limbs_val (take 64 acc)"
    using k assms by (intro limbs_val_pos[of "unat f"]) (simp_all add: leading_zeros_def)
  then show "limbs_val (take 64 acc) \<noteq> 0" by simp
next
  assume nz: "limbs_val (take 64 acc) \<noteq> 0"
  show "f < block_width"
  proof (rule ccontr)
    assume "\<not> f < block_width"
    then have "unat f = 64" using assms
      by (simp add: word_less_nat_alt block_width_def leading_zeros_def)
    then have "\<forall>j < length (take 64 acc). take 64 acc ! j = 0"
      using assms by (simp add: leading_zeros_def)
    then have "limbs_val (take 64 acc) = 0" by (rule limbs_val_zeros)
    with nz show False by simp
  qed
qed

lemma top_zero_shape:
  assumes "64 \<le> length acc" and "limbs_val (take 64 acc) = 0"
  shows "acc = replicate 64 0 @ drop 64 acc"
proof -
  have "take 64 acc ! j = 0" if "j < 64" for j
  proof (rule ccontr)
    assume "take 64 acc ! j \<noteq> 0"
    then have "0 < limbs_val (take 64 acc)"
      using that assms(1) by (intro limbs_val_pos[of j]) simp_all
    with assms(2) show False by simp
  qed
  then have "take 64 acc = replicate 64 0"
    using assms(1) by (intro nth_equalityI) simp_all
  then show ?thesis using append_take_drop_id[of 64 acc] by simp
qed

lemma last_limb_of_value:
  assumes "64 \<le> length acc"
  shows "unat (acc ! 63) = limbs_val (take 64 acc) mod 4294967296"
proof -
  have "take 64 acc = take 63 acc @ [acc ! 63]"
    using assms take_Suc_conv_app_nth[of 63 acc] by simp
  then have "limbs_val (take 64 acc) = limbs_val (take 63 acc) * 4294967296 + unat (acc ! 63)"
    by simp
  then show ?thesis using unat_limb_less[of "acc ! 63"] by simp
qed

lemma integer_digits_emits:
  "leading_zeros acc f \<Longrightarrow>
   integer_digits acc f result =
     Inr (replicate 64 0 @ drop 64 acc, result @ emitted_digits (limbs_val (take 64 acc)))"
proof (induction "limbs_val (take 64 acc)" arbitrary: acc f result rule: less_induct)
  case less
  define v where "v = limbs_val (take 64 acc)"
  have len: "64 \<le> length acc" using less.prems by (simp add: leading_zeros_def)
  show ?case
  proof (cases "f < block_width")
    case False
    then have v0: "limbs_val (take 64 acc) = 0"
      using leading_zeros_value[OF less.prems] by simp
    have "integer_digits acc f result = Inr (acc, result)"
      using False by (subst integer_digits.simps) simp
    then show ?thesis
      using top_zero_shape[OF len v0] v0 by (simp add: emitted_digits.simps)
  next
    case True
    then have vpos: "limbs_val (take 64 acc) \<noteq> 0"
      using leading_zeros_value[OF less.prems] by simp
    from divide_by_10_returns[OF len, of 0 0] obtain acc1 where
      d: "divide_by_10 acc 0 0 = Inr acc1" by blast
    note dt = divide_by_10_top[OF d]
    have v1: "limbs_val (take 64 acc1) < limbs_val (take 64 acc)"
      using dt(3) vpos by simp
    have len1: "64 \<le> length acc1" using dt(1,2) by simp
    have uf: "unat f \<le> 64" using less.prems by (simp add: leading_zeros_def)
    from skip_zero_limbs_returns[OF len1 uf] obtain f1 where
      s: "skip_zero_limbs acc1 f = Inr f1" and b: "unat f \<le> unat f1" "unat f1 \<le> 64"
      and zs: "\<forall>j. unat f \<le> j \<and> j < unat f1 \<longrightarrow> acc1 ! j = 0"
      and nz: "unat f1 < 64 \<longrightarrow> acc1 ! unat f1 \<noteq> 0"
      by blast
    have small: "limbs_val (take 64 acc) < 4294967296 ^ (length (take 64 acc) - unat f)"
      using less.prems len by (intro limbs_val_prefix_zero_small) (simp_all add: leading_zeros_def)
    have "limbs_val (take 64 acc1) \<le> limbs_val (take 64 acc)" using v1 by simp
    then have small1: "limbs_val (take 64 acc1) < 4294967296 ^ (length (take 64 acc1) - unat f)"
      using small len len1 by simp
    have pre: "acc1 ! j = 0" if "j < unat f" for j
      using limbs_val_small_prefix[OF small1, of j] that uf len1 by simp
    have lz1: "leading_zeros acc1 f1"
      unfolding leading_zeros_def
    proof (intro conjI allI impI)
      fix j assume "j < unat f1"
      then show "acc1 ! j = 0" using pre zs by (cases "j < unat f") auto
    qed (use len1 b nz in auto)
    have digit: "unat (acc ! unat (block_width - 1) mod 10) = limbs_val (take 64 acc) mod 4294967296 mod 10"
      using last_limb_of_value[OF len] by (simp add: unat_block_width_m1 unat_mod)
    have inb: "\<not> length acc \<le> unat (block_width - 1)"
      using len by (simp add: unat_block_width_m1)
    have "integer_digits acc f result =
          integer_digits acc1 f1
            (result @ [char_of (48 + unat (acc ! unat (block_width - 1) mod 10))])"
      using True inb d s by (subst integer_digits.simps) simp
    also have "\<dots> = Inr (replicate 64 0 @ drop 64 acc1,
        (result @ [char_of (48 + unat (acc ! unat (block_width - 1) mod 10))])
          @ emitted_digits (limbs_val (take 64 acc1)))"
      using less.hyps[OF v1 lz1] .
    also have "\<dots> = Inr (replicate 64 0 @ drop 64 acc,
        result @ emitted_digits (limbs_val (take 64 acc)))"
      using vpos dt(3,4) digit
      by (subst (2) emitted_digits.simps) simp
    finally show ?thesis .
  qed
qed

lemma emitted_digits_empty: "emitted_digits v = [] \<longleftrightarrow> v = 0"
  by (subst emitted_digits.simps) simp

lemma print_integer_part_emits:
  assumes "64 \<le> length acc"
  shows "print_integer_part acc =
     Inr (replicate 64 0 @ drop 64 acc,
          if limbs_val (take 64 acc) = 0 then ''0''
          else rev (emitted_digits (limbs_val (take 64 acc))))"
proof -
  from skip_zero_limbs_returns[OF assms, of 0] obtain f where
    s: "skip_zero_limbs acc 0 = Inr f" and b: "unat f \<le> 64"
    and zs: "\<forall>j. j < unat f \<longrightarrow> acc ! j = 0"
    and nz: "unat f < 64 \<longrightarrow> acc ! unat f \<noteq> 0"
    by auto
  have "leading_zeros acc f"
    using assms b zs nz by (simp add: leading_zeros_def)
  from integer_digits_emits[OF this, of "[]"] s
  show ?thesis by (simp add: print_integer_part_def emitted_digits_empty)
qed

lemma limbs_val_replicate_zero: "limbs_val (replicate n 0) = 0"
  by (rule limbs_val_zeros) simp

lemma emitted_digits_two_limbs: "emitted_digits 4294967296 = ''0927694924''"
  by (simp add: emitted_digits.simps char_of_def bit_0)

lemma limbs_val_one_zero: "limbs_val [1, 0] = 4294967296"
  by (simp add: limbs_val_def)

lemma two_limb_top:
  "limbs_val (take 64 (replicate 62 0 @ [1, 0] @ replicate 64 0)) = 4294967296"
  by (simp add: limbs_val_append limbs_val_replicate_zero limbs_val_one_zero)

lemma decimal_value_printed: "decimal_value ''4294967290'' = 4294967290"
  by (simp add: decimal_value_def digit_value_def)

text \<open>
  Claim C6. For an accumulator whose top 64 limbs encode a non-negative integer,
  \<open>print_integer_part\<close> is said to emit the decimal digits of that integer, so that reading the
  emitted string in base 10 gives the value of the top limbs back. The digit pushed in each
  round is \<open>accumulator[block_width - 1] % 10\<close>, the residue of the lowest integer limb alone,
  and \<open>2^32\<close> is not a multiple of 10: with the top limbs \<open>0, \<dots>, 0, 1, 0\<close> (the integer
  \<open>2^32 = 4294967296\<close>) the function prints \<open>4294967290\<close>.
\<close>

theorem integer_part_digit_of_low_limb:
  "print_integer_part (replicate 62 0 @ [1, 0] @ replicate 64 0)
     = Inr (replicate 128 0, ''4294967290'') \<and>
   limbs_val (take (unat block_width) (replicate 62 0 @ [1, 0] @ replicate 64 0)) = 4294967296 \<and>
   decimal_value ''4294967290'' = 4294967290"
proof -
  have "print_integer_part (replicate 62 0 @ [1, 0] @ replicate 64 0)
     = Inr (replicate 128 0, ''4294967290'')"
    using print_integer_part_emits[of "replicate 62 0 @ [1, 0] @ replicate 64 0"]
    unfolding two_limb_top emitted_digits_two_limbs
    by (simp flip: replicate_add)
  then show ?thesis
    using two_limb_top decimal_value_printed by (simp add: unat_block_width)
qed

section \<open>What print_fractional_part prints\<close>

declare skip_zero_limbs_down.simps [simp del] multiply_pow10.simps [simp del]
  fractional_digits.simps [simp del]

lemma unat_pow10: "unat pow10 = 1000000000"
  by (simp add: pow10_def digits10_def)

lemma skip_zero_limbs_down_returns:
  "unat f < length acc \<Longrightarrow>
   \<exists>f'. skip_zero_limbs_down acc f = Inr f' \<and> unat f' \<le> unat f \<and>
        (\<forall>j. unat f' < j \<and> j \<le> unat f \<longrightarrow> acc ! j = 0) \<and>
        (0 < unat f' \<longrightarrow> acc ! unat f' \<noteq> 0)"
proof (induction acc f rule: skip_zero_limbs_down.induct)
  case (1 acc f)
  show ?case
  proof (cases "0 < f")
    case False
    then show ?thesis by (subst skip_zero_limbs_down.simps) (auto simp: word_greater_zero_iff)
  next
    case True
    then have f0: "f \<noteq> 0" by (simp add: word_greater_zero_iff)
    then have pos: "0 < unat f" by (simp add: unat_gt_0)
    have inb: "\<not> length acc \<le> unat f" using "1.prems" by simp
    have s: "unat (f - 1) = unat f - 1"
      by (rule unat_minus_one[OF f0])
    show ?thesis
    proof (cases "acc ! unat f = 0")
      case False
      then show ?thesis using True inb by (subst skip_zero_limbs_down.simps) auto
    next
      case z: True
      have "unat (f - 1) < length acc" using s "1.prems" by simp
      from "1.IH"[OF True inb z this] s
      obtain f' where r: "skip_zero_limbs_down acc (f - 1) = Inr f'"
        and b: "unat f' \<le> unat f - 1"
        and zs: "\<forall>j. unat f' < j \<and> j \<le> unat f - 1 \<longrightarrow> acc ! j = 0"
        and nz: "0 < unat f' \<longrightarrow> acc ! unat f' \<noteq> 0"
        by auto
      have "\<forall>j. unat f' < j \<and> j \<le> unat f \<longrightarrow> acc ! j = 0"
      proof (intro allI impI)
        fix j assume "unat f' < j \<and> j \<le> unat f"
        then show "acc ! j = 0" using zs z by (cases "j = unat f") auto
      qed
      moreover have "skip_zero_limbs_down acc f = Inr f'"
        using True inb z r by (subst skip_zero_limbs_down.simps) simp
      ultimately show ?thesis using b nz pos by auto
    qed
  qed
qed

text \<open>
  One pass of the multiplication loop over the limbs \<open>63 .. i\<close>, entered with carry \<open>c\<close>:
  these limbs, with the carry that leaves limb 63, hold the old value times \<open>10^9\<close> plus \<open>c\<close>.
\<close>

lemma pow10_carry_bound:
  "c < 1000000000 \<Longrightarrow> a < 4294967296 \<Longrightarrow> (c + a * 1000000000) div 4294967296 < (1000000000::nat)"
  by (rule less_mult_imp_div_less) simp

lemma pow10_no_wrap:
  "c < 1000000000 \<Longrightarrow> a < 4294967296 \<Longrightarrow>
   (c + a * 1000000000) mod 18446744073709551616 = (c + a * (1000000000::nat))"
  by simp

lemma pow10_no_wrap2:
  "a < 4294967296 \<Longrightarrow>
   (a * 1000000000) mod 18446744073709551616 = (a * (1000000000::nat))"
  by simp

lemma take_drop_update_last:
  "take k (drop 63 (acc[63 + k := x])) = take k (drop 63 acc)"
  by (simp add: drop_update_swap)

lemma take_Suc_drop_nth:
  "63 + k < length xs \<Longrightarrow> take (Suc k) (drop 63 xs) = take k (drop 63 xs) @ [xs ! (63 + k)]"
  using take_Suc_conv_app_nth[of k "drop 63 xs"] by simp

lemma multiply_pow10_value:
  "unat i = 62 + k \<Longrightarrow> 62 + k < length acc \<Longrightarrow> unat n < 1000000000 \<Longrightarrow>
   \<exists>acc' cout. multiply_pow10 acc i n = Inr acc' \<and> length acc' = length acc \<and>
     (\<forall>j. j < 63 \<or> 62 + k < j \<longrightarrow> acc' ! j = acc ! j) \<and>
     limbs_val (take k (drop 63 acc')) + cout * 4294967296 ^ k =
       limbs_val (take k (drop 63 acc)) * 1000000000 + unat n"
proof (induction k arbitrary: i acc n)
  case 0
  then have "\<not> block_width - 1 \<le> i"
    by (simp add: word_le_nat_alt unat_block_width_m1)
  then have "multiply_pow10 acc i n = Inr acc"
    by (subst multiply_pow10.simps) simp
  then show ?case by (intro exI[of _ acc] exI[of _ "unat n"]) simp
next
  case (Suc k)
  define idx where "idx = 63 + k"
  define a where "a = acc ! idx"
  define n1 :: limb2_int where "n1 = n + ucast a * ucast pow10"
  define acc1 where "acc1 = acc[idx := ucast n1]"
  have ui: "unat i = idx" using Suc.prems(1) by (simp add: idx_def)
  have inb: "idx < length acc" using Suc.prems(2) by (simp add: idx_def)
  have ge: "block_width - 1 \<le> i"
    using ui by (simp add: word_le_nat_alt unat_block_width_m1 idx_def)
  have A: "unat a < 4294967296" by (rule unat_limb_less)
  have um: "unat (ucast a * ucast pow10 :: limb2_int) = unat a * 1000000000"
    unfolding unat_word_ariths unat_ucast_up unat_pow10 using pow10_no_wrap2[OF A] by simp
  have un1: "unat n1 = unat n + unat a * 1000000000"
    unfolding n1_def unat_add64 um by (rule pow10_no_wrap[OF Suc.prems(3) A])
  have c1: "unat (drop_bit limb_bits n1) < 1000000000"
    unfolding limb_bits_def unat_drop32 un1 by (rule pow10_carry_bound[OF Suc.prems(3) A])
  have i0: "i \<noteq> 0" using ui by (auto simp: idx_def)
  have i1: "unat (i - 1) = 62 + k"
    using ui unat_minus_one[OF i0] by (simp add: idx_def)
  have step: "multiply_pow10 acc i n = multiply_pow10 acc1 (i - 1) (drop_bit limb_bits n1)"
    using ge inb ui
    by (subst multiply_pow10.simps) (simp add: Let_def acc1_def n1_def a_def)
  have len1: "62 + k < length acc1" using inb by (simp add: acc1_def idx_def)
  from Suc.IH[OF i1 len1 c1]
  obtain acc' cout where r: "multiply_pow10 acc1 (i - 1) (drop_bit limb_bits n1) = Inr acc'"
    and len: "length acc' = length acc1"
    and same: "\<forall>j. j < 63 \<or> 62 + k < j \<longrightarrow> acc' ! j = acc1 ! j"
    and val: "limbs_val (take k (drop 63 acc')) + cout * 4294967296 ^ k =
       limbs_val (take k (drop 63 acc1)) * 1000000000 + unat (drop_bit limb_bits n1)"
    by blast
  have len': "length acc' = length acc" using len by (simp add: acc1_def)
  have "acc' ! idx = acc1 ! idx" using same by (simp add: idx_def)
  then have ak: "acc' ! idx = ucast n1"
    using inb by (simp add: acc1_def)
  have t1: "take k (drop 63 acc1) = take k (drop 63 acc)"
    unfolding acc1_def idx_def by (rule take_drop_update_last)
  have v': "limbs_val (take (Suc k) (drop 63 acc')) =
      limbs_val (take k (drop 63 acc')) * 4294967296 + unat n1 mod 4294967296"
    using take_Suc_drop_nth[of k acc'] inb len' ak by (simp add: idx_def unat_ucast_down)
  have v: "limbs_val (take (Suc k) (drop 63 acc)) =
      limbs_val (take k (drop 63 acc)) * 4294967296 + unat a"
    using take_Suc_drop_nth[of k acc] inb by (simp add: a_def idx_def)
  define X where "X = limbs_val (take k (drop 63 acc'))"
  define Y where "Y = limbs_val (take k (drop 63 acc))"
  define P where "P = (4294967296::nat) ^ k"
  have val': "X + cout * P = Y * 1000000000 + unat n1 div 4294967296"
    using val t1 by (simp add: limb_bits_def unat_drop32 X_def Y_def P_def)
  have "X * 4294967296 + unat n1 mod 4294967296 + cout * (4294967296 * P) =
      (X + cout * P) * 4294967296 + unat n1 mod 4294967296"
    by (simp add: algebra_simps)
  also have "\<dots> = Y * 1000000000 * 4294967296
      + (unat n1 div 4294967296 * 4294967296 + unat n1 mod 4294967296)"
    unfolding val' by (simp add: algebra_simps)
  also have "\<dots> = Y * 1000000000 * 4294967296 + unat n1"
    by simp
  also have "\<dots> = (Y * 4294967296 + unat a) * 1000000000 + unat n"
    unfolding un1 by (simp add: algebra_simps)
  finally have tot: "limbs_val (take (Suc k) (drop 63 acc')) + cout * 4294967296 ^ Suc k =
      limbs_val (take (Suc k) (drop 63 acc)) * 1000000000 + unat n"
    unfolding v v' X_def Y_def P_def by simp
  have keep: "\<forall>j. j < 63 \<or> 62 + Suc k < j \<longrightarrow> acc' ! j = acc ! j"
  proof (intro allI impI)
    fix j assume j: "j < 63 \<or> 62 + Suc k < j"
    then have "acc' ! j = acc1 ! j" using same by auto
    moreover have "j \<noteq> idx" using j by (auto simp: idx_def)
    ultimately show "acc' ! j = acc ! j" by (simp add: acc1_def)
  qed
  have "multiply_pow10 acc i n = Inr acc'" using step r by simp
  then show ?case
    using len' tot keep by blast
qed

lemma multiply_pow10_frame:
  assumes "unat i < length acc"
  shows "\<exists>acc'. multiply_pow10 acc i 0 = Inr acc' \<and> length acc' = length acc \<and>
     (\<forall>j. j < 63 \<or> unat i < j \<longrightarrow> acc' ! j = acc ! j)"
proof (cases "62 \<le> unat i")
  case True
  have u: "unat i = 62 + (unat i - 62)" using True by simp
  have l: "62 + (unat i - 62) < length acc" using True assms by simp
  have "unat (0 :: limb2_int) < 1000000000" by simp
  from multiply_pow10_value[OF u l this] u show ?thesis by auto
next
  case False
  then have "\<not> block_width - 1 \<le> i"
    by (simp add: word_le_nat_alt unat_block_width_m1)
  then have "multiply_pow10 acc i 0 = Inr acc"
    by (subst multiply_pow10.simps) simp
  then show ?thesis by simp
qed

lemma emit_digits_frame:
  "emit_digits acc p k result = Inr (acc', result') \<Longrightarrow> j \<noteq> 63 \<Longrightarrow> acc' ! j = acc ! j"
  by (induction acc p k result rule: emit_digits.induct)
     (auto simp: unat_block_width_m1 split: if_splits)

lemma emit_digits_no_fault:
  "63 < length acc \<Longrightarrow> (0 < k \<longrightarrow> unat p = 10 ^ (k - 1)) \<Longrightarrow>
   \<exists>x. emit_digits acc p k result = Inr x"
proof (induction k arbitrary: acc p result)
  case 0
  then show ?case by simp
next
  case (Suc k)
  have up: "unat p = 10 ^ k" using Suc.prems(2) by simp
  then have p0: "p \<noteq> 0" by (auto simp: unat_eq_zero[symmetric] simp del: unat_eq_zero)
  have nx: "0 < k \<longrightarrow> unat (p div 10) = 10 ^ (k - 1)"
  proof
    assume "0 < k"
    then obtain k' where k: "k = Suc k'" by (cases k) auto
    show "unat (p div 10) = 10 ^ (k - 1)"
      by (simp add: unat_div up k)
  qed
  have len: "63 < length (acc[unat (block_width - 1) := acc ! unat (block_width - 1) mod p])"
    using Suc.prems(1) by simp
  from Suc.IH[OF len nx] Suc.prems(1) p0 show ?case
    by (simp add: unat_block_width_m1)
qed

lemma unat_pow10_div: "unat (pow10 div 10) = 10 ^ 8"
  by (simp add: unat_div unat_pow10)

lemma emit_digits_returns:
  assumes "63 < length acc"
  shows "\<exists>acc' result'. emit_digits acc (pow10 div 10) digits10 result = Inr (acc', result') \<and>
     length result' = length result + 9 \<and> length acc' = length acc \<and>
     (\<forall>j. j \<noteq> 63 \<longrightarrow> acc' ! j = acc ! j)"
proof -
  have "0 < digits10 \<longrightarrow> unat (pow10 div 10) = 10 ^ (digits10 - 1)"
    by (simp add: unat_pow10_div digits10_def)
  from emit_digits_no_fault[OF assms this]
  obtain acc' result' where e: "emit_digits acc (pow10 div 10) digits10 result = Inr (acc', result')"
    by force
  from emit_digits_length[OF e] emit_digits_frame[OF e] e show ?thesis
    by (auto simp: digits10_def)
qed

text \<open>
  One round of the digit loop on an accumulator of more than 63 limbs whose limbs after
  \<open>first_non_zero\<close> are zero: no step faults, nine digits are appended, limb 63 is left zero
  and the limbs after it are those written by the multiplication.
\<close>

lemma fractional_round:
  assumes len: "63 < length acc" and f: "unat fnz < length acc"
    and z: "\<forall>j. unat fnz < j \<and> j < length acc \<longrightarrow> acc ! j = 0"
  shows "\<exists>acc1 acc2 result1 fnz1.
     multiply_pow10 acc fnz 0 = Inr acc1 \<and>
     emit_digits acc1 (pow10 div 10) digits10 result = Inr (acc2, result1) \<and>
     \<not> length acc2 \<le> unat (block_width - 1) \<and>
     skip_zero_limbs_down (acc2[unat (block_width - 1) := 0]) fnz = Inr fnz1 \<and>
     length result1 = length result + 9 \<and>
     length acc1 = length acc \<and>
     length (acc2[unat (block_width - 1) := 0]) = length acc \<and>
     unat fnz1 < length acc \<and>
     (\<forall>j. unat fnz1 < j \<and> j < length acc \<longrightarrow> acc2[unat (block_width - 1) := 0] ! j = 0) \<and>
     acc2[unat (block_width - 1) := 0] ! 63 = 0 \<and>
     (\<forall>j. 63 < j \<longrightarrow> acc2[unat (block_width - 1) := 0] ! j = acc1 ! j)"
proof -
  from multiply_pow10_frame[OF f]
  obtain acc1 where m: "multiply_pow10 acc fnz 0 = Inr acc1"
    and l1: "length acc1 = length acc"
    and k1: "\<forall>j. j < 63 \<or> unat fnz < j \<longrightarrow> acc1 ! j = acc ! j"
    by blast
  have "63 < length acc1" using l1 len by simp
  from emit_digits_returns[OF this, of result]
  obtain acc2 result1 where e: "emit_digits acc1 (pow10 div 10) digits10 result = Inr (acc2, result1)"
    and lr: "length result1 = length result + 9"
    and l2: "length acc2 = length acc1"
    and k2: "\<forall>j. j \<noteq> 63 \<longrightarrow> acc2 ! j = acc1 ! j"
    by blast
  define acc3 where "acc3 = acc2[unat (block_width - 1) := 0]"
  have l3: "length acc3 = length acc" by (simp add: acc3_def l2 l1)
  have inb: "\<not> length acc2 \<le> unat (block_width - 1)"
    using l2 l1 len by (simp add: unat_block_width_m1)
  have t3: "acc3 ! 63 = 0" using l2 l1 len by (simp add: acc3_def unat_block_width_m1)
  have k3: "\<forall>j. 63 < j \<longrightarrow> acc3 ! j = acc1 ! j"
    using k2 by (simp add: acc3_def unat_block_width_m1)
  have z3: "\<forall>j. unat fnz < j \<and> j < length acc \<longrightarrow> acc3 ! j = 0"
  proof (intro allI impI)
    fix j assume j: "unat fnz < j \<and> j < length acc"
    show "acc3 ! j = 0"
    proof (cases "j = 63")
      case True
      then show ?thesis using t3 by simp
    next
      case False
      then have "acc3 ! j = acc2 ! j" by (simp add: acc3_def unat_block_width_m1)
      also have "\<dots> = acc1 ! j" using k2 False by simp
      also have "\<dots> = acc ! j" using k1 j by simp
      also have "\<dots> = 0" using z j by simp
      finally show ?thesis .
    qed
  qed
  have "unat fnz < length acc3" using l3 f by simp
  from skip_zero_limbs_down_returns[OF this]
  obtain fnz1 where s: "skip_zero_limbs_down acc3 fnz = Inr fnz1"
    and b1: "unat fnz1 \<le> unat fnz"
    and zs: "\<forall>j. unat fnz1 < j \<and> j \<le> unat fnz \<longrightarrow> acc3 ! j = 0"
    by blast
  have z3': "\<forall>j. unat fnz1 < j \<and> j < length acc \<longrightarrow> acc3 ! j = 0"
  proof (intro allI impI)
    fix j assume j: "unat fnz1 < j \<and> j < length acc"
    show "acc3 ! j = 0"
      using j z3 zs by (cases "j \<le> unat fnz") auto
  qed
  have p2: "unat fnz1 < length acc" using b1 f by simp
  show ?thesis
    using m e inb s lr l1 l3 p2 z3' t3 k3 unfolding acc3_def by blast
qed

lemma fractional_digits_returns:
  "63 < length acc \<Longrightarrow> unat fnz < length acc \<Longrightarrow>
   (\<forall>j. unat fnz < j \<and> j < length acc \<longrightarrow> acc ! j = 0) \<Longrightarrow>
   \<exists>acc' result'. fractional_digits acc fnz dd result = Inr (acc', result') \<and>
     length acc' = length acc \<and>
     length result \<le> length result' \<and>
     length result' \<le> max (length result) (unat dd + 9) \<and>
     (9 dvd length result \<longrightarrow> 9 dvd length result') \<and>
     (unat dd < length result' \<or> (\<forall>j. 0 < j \<and> j < length acc \<longrightarrow> acc' ! j = 0))"
proof (induction acc fnz dd result rule: fractional_digits.induct)
  case (1 acc fnz dd result)
  show ?case
  proof (cases "0 < fnz \<and> length result \<le> unat dd")
    case False
    then have r: "fractional_digits acc fnz dd result = Inr (acc, result)"
      by (subst fractional_digits.simps) auto
    have "unat dd < length result \<or> (\<forall>j. 0 < j \<and> j < length acc \<longrightarrow> acc ! j = 0)"
    proof (cases "0 < fnz")
      case True
      then show ?thesis using False by simp
    next
      case f: False
      then have "unat fnz = 0" by (simp add: word_greater_zero_iff)
      then show ?thesis using "1.prems"(3) by simp
    qed
    then show ?thesis using r by simp
  next
    case True
    from fractional_round[OF "1.prems", of result]
    obtain acc1 acc2 result1 fnz1 where
      m: "multiply_pow10 acc fnz 0 = Inr acc1"
      and e: "emit_digits acc1 (pow10 div 10) digits10 result = Inr (acc2, result1)"
      and inb: "\<not> length acc2 \<le> unat (block_width - 1)"
      and s: "skip_zero_limbs_down (acc2[unat (block_width - 1) := 0]) fnz = Inr fnz1"
      and lr: "length result1 = length result + 9"
      and l3: "length (acc2[unat (block_width - 1) := 0]) = length acc"
      and p2: "unat fnz1 < length acc"
      and z3: "\<forall>j. unat fnz1 < j \<and> j < length acc \<longrightarrow> acc2[unat (block_width - 1) := 0] ! j = 0"
      by blast
    define acc3 where "acc3 = acc2[unat (block_width - 1) := 0]"
    have q1: "63 < length acc3" using l3 "1.prems"(1) by (simp add: acc3_def)
    have q2: "unat fnz1 < length acc3" using l3 p2 by (simp add: acc3_def)
    have q3: "\<forall>j. unat fnz1 < j \<and> j < length acc3 \<longrightarrow> acc3 ! j = 0"
      using z3 l3 by (simp add: acc3_def)
    from "1.IH"[OF True m e refl inb s q1[unfolded acc3_def] q2[unfolded acc3_def]
        q3[unfolded acc3_def]]
    obtain acc' result' where
      r: "fractional_digits acc3 fnz1 dd result1 = Inr (acc', result')"
      and la: "length acc' = length acc3"
      and g1: "length result1 \<le> length result'"
      and g2: "length result' \<le> max (length result1) (unat dd + 9)"
      and g3: "9 dvd length result1 \<longrightarrow> 9 dvd length result'"
      and g4: "unat dd < length result' \<or> (\<forall>j. 0 < j \<and> j < length acc3 \<longrightarrow> acc' ! j = 0)"
      unfolding acc3_def by blast
    have l3': "length acc3 = length acc" using l3 by (simp add: acc3_def)
    have step: "fractional_digits acc fnz dd result = fractional_digits acc3 fnz1 dd result1"
      using True m e inb s
      by (subst fractional_digits.simps) (simp add: acc3_def)
    have h2: "length result' \<le> max (length result) (unat dd + 9)"
      using g2 lr True by simp
    have h3: "9 dvd length result \<longrightarrow> 9 dvd length result'"
      using g3 lr by simp
    show ?thesis
      using step r la l3' g1 lr h2 h3 g4 by auto
  qed
qed

lemma unat_dec_digits:
  assumes "64 < L" "L < 4294967296"
  shows "unat ((of_nat L - ucast block_width) * of_nat digits10 - 2 :: 64 word) = (L - 64) * 9 - 2"
proof -
  have "(of_nat ((L - 64) * 9 - 2) :: 64 word) = of_nat ((L - 64) * 9) - of_nat 2"
    using assms by (intro of_nat_diff) simp
  also have "\<dots> = of_nat (L - 64) * 9 - 2" by simp
  also have "of_nat (L - 64) = (of_nat L - of_nat 64 :: 64 word)"
    using assms by (intro of_nat_diff) simp
  finally have "(of_nat L - ucast block_width) * of_nat digits10 - 2
      = (of_nat ((L - 64) * 9 - 2) :: 64 word)"
    by (simp add: block_width_def digits10_def)
  moreover have "(L - 64) * 9 - 2 < 2 ^ 64" using assms by simp
  ultimately show ?thesis by (simp add: unat_of_nat)
qed

lemma unat_last_index:
  assumes "0 < L" "L < 4294967296"
  shows "unat (of_nat L - 1 :: 32 word) = L - 1"
proof -
  have "(of_nat (L - 1) :: 32 word) = of_nat L - of_nat 1"
    using assms by (intro of_nat_diff) simp
  then have e: "(of_nat L - 1 :: 32 word) = of_nat (L - 1)" by simp
  have "L - 1 < 2 ^ 32" using assms by simp
  then show ?thesis unfolding e by (simp add: unat_of_nat)
qed

lemma print_fractional_part_returns:
  assumes "64 < length acc" "length acc < 4294967296"
  shows "\<exists>acc' ds. print_fractional_part acc
            = Inr (acc', if ds \<noteq> [] then ''.'' @ ds else []) \<and>
          length acc' = length acc \<and>
          length ds \<le> (length acc - unat block_width) * digits10 \<and>
          digits10 dvd length ds \<and>
          ((length acc - unat block_width) * digits10 - 2 < length ds \<or>
           (\<forall>j. 0 < j \<and> j < length acc \<longrightarrow> acc' ! j = 0))"
proof -
  define L where "L = length acc"
  define f0 :: "32 word" where "f0 = of_nat L - 1"
  define dd :: "64 word" where "dd = (of_nat L - ucast block_width) * of_nat digits10 - 2"
  have "0 < L" "L < 4294967296" using assms unfolding L_def by linarith+
  then have uf: "unat f0 = L - 1" unfolding f0_def by (rule unat_last_index)
  have "64 < L" "L < 4294967296" using assms unfolding L_def by linarith+
  then have ud: "unat dd = (L - 64) * 9 - 2" unfolding dd_def by (rule unat_dec_digits)
  have "unat f0 < length acc" using uf assms by (simp add: L_def)
  from skip_zero_limbs_down_returns[OF this]
  obtain f where s: "skip_zero_limbs_down acc f0 = Inr f"
    and b: "unat f \<le> unat f0"
    and z: "\<forall>j. unat f < j \<and> j \<le> unat f0 \<longrightarrow> acc ! j = 0"
    by blast
  have z': "\<forall>j. unat f < j \<and> j < length acc \<longrightarrow> acc ! j = 0"
    using z uf by (auto simp: L_def)
  have p1: "63 < length acc" using assms by simp
  have p2: "unat f < length acc" using b uf assms by (simp add: L_def)
  from fractional_digits_returns[OF p1 p2 z', of dd "[]"]
  obtain acc' ds where r: "fractional_digits acc f dd [] = Inr (acc', ds)"
    and la: "length acc' = length acc"
    and g2: "length ds \<le> unat dd + 9"
    and g3: "9 dvd length ds"
    and g4: "unat dd < length ds \<or> (\<forall>j. 0 < j \<and> j < length acc \<longrightarrow> acc' ! j = 0)"
    by auto
  have bound: "length ds \<le> (L - 64) * 9"
  proof -
    obtain q where q: "length ds = 9 * q" using g3 by (auto simp: dvd_def)
    have "9 * q \<le> (L - 64) * 9 + 7" using g2 q ud assms by (simp add: L_def)
    then have "q \<le> L - 64" by simp
    then show ?thesis using q by simp
  qed
  have "print_fractional_part acc = Inr (acc', if ds \<noteq> [] then ''.'' @ ds else [])"
    using s r by (simp add: print_fractional_part_def f0_def dd_def L_def)
  then show ?thesis
    using la bound g3 g4 ud
    by (intro exI[of _ acc'] exI[of _ ds]) (simp add: L_def unat_block_width digits10_def)
qed

lemma drop_zero_limbs:
  "\<forall>j. n \<le> j \<and> j < length xs \<longrightarrow> xs ! j = 0 \<Longrightarrow> limbs_val (drop n xs) = 0"
  by (rule limbs_val_zeros) (simp add: add.commute)

lemma mod_of_multiple:
  fixes s1 s c p :: nat
  assumes "s1 + c * p = s" "s1 < p"
  shows "s1 = s mod p"
  using assms by auto

text \<open>
  The multiplication loop multiplies the fraction (the limbs after limb 63) by \<open>10^9\<close>
  modulo \<open>2^(32 * (L - 64))\<close>; what overflows is left in limb 63.
\<close>

lemma multiply_pow10_fraction:
  assumes len: "63 < length acc" and f: "unat fnz < length acc"
    and z: "\<forall>j. unat fnz < j \<and> j < length acc \<longrightarrow> acc ! j = 0"
    and top: "acc ! 63 = 0"
    and m: "multiply_pow10 acc fnz 0 = Inr acc1"
  shows "limbs_val (drop 64 acc1) =
     (limbs_val (drop 64 acc) * 1000000000) mod 4294967296 ^ (length acc - 64)"
proof (cases "unat fnz \<le> 63")
  case True
  from multiply_pow10_frame[OF f] m
  have l1: "length acc1 = length acc"
    and k1: "\<forall>j. j < 63 \<or> unat fnz < j \<longrightarrow> acc1 ! j = acc ! j"
    by auto
  have "\<forall>j. 64 \<le> j \<and> j < length acc \<longrightarrow> acc ! j = 0" using z True by auto
  then have z0: "limbs_val (drop 64 acc) = 0" by (rule drop_zero_limbs)
  have "\<forall>j. 64 \<le> j \<and> j < length acc1 \<longrightarrow> acc1 ! j = 0" using z k1 l1 True by auto
  then have "limbs_val (drop 64 acc1) = 0" by (rule drop_zero_limbs)
  then show ?thesis using z0 by simp
next
  case False
  define k' where "k' = unat fnz - 63"
  define n where "n = length acc - 64"
  have u: "unat fnz = 62 + Suc k'" using False by (simp add: k'_def)
  have l: "62 + Suc k' < length acc" using u f by simp
  have "unat (0 :: limb2_int) < 1000000000" by simp
  from multiply_pow10_value[OF u l this] m
  obtain cout where l1: "length acc1 = length acc"
    and k1: "\<forall>j. j < 63 \<or> 62 + Suc k' < j \<longrightarrow> acc1 ! j = acc ! j"
    and v: "limbs_val (take (Suc k') (drop 63 acc1)) + cout * 4294967296 ^ Suc k' =
       limbs_val (take (Suc k') (drop 63 acc)) * 1000000000"
    by auto
  define xs where "xs = drop 64 acc"
  define ys where "ys = drop 64 acc1"
  define S where "S = limbs_val (take k' xs)"
  define S1 where "S1 = limbs_val (take k' ys)"
  have kn: "k' \<le> n" using l by (simp add: n_def)
  have lx: "length xs = n" "length ys = n" by (simp_all add: xs_def ys_def n_def l1)
  have dx: "drop 63 acc = acc ! 63 # xs"
    unfolding xs_def using Cons_nth_drop_Suc[of 63 acc] len by simp
  have dy: "drop 63 acc1 = acc1 ! 63 # ys"
    unfolding ys_def using Cons_nth_drop_Suc[of 63 acc1] len l1 by simp
  have vx: "limbs_val (take (Suc k') (drop 63 acc)) = S"
    by (simp add: dx top limbs_val_Cons S_def)
  have "length (take k' ys) = k'" using kn lx by simp
  then have vy: "limbs_val (take (Suc k') (drop 63 acc1)) = unat (acc1 ! 63) * 4294967296 ^ k' + S1"
    by (simp add: dy limbs_val_Cons S1_def)
  have "length (take k' ys) = k'" using kn lx by simp
  then have b1: "S1 < 4294967296 ^ k'"
    using limbs_val_less[of "take k' ys"] by (simp add: S1_def)
  have "S1 + (unat (acc1 ! 63) + cout * 4294967296) * 4294967296 ^ k' = S * 1000000000"
    using v unfolding vx vy by (simp add: algebra_simps)
  from mod_of_multiple[OF this b1]
  have s1: "S1 = (S * 1000000000) mod 4294967296 ^ k'" .
  have "\<forall>j. k' \<le> j \<and> j < length xs \<longrightarrow> xs ! j = 0"
    using z u by (auto simp: xs_def)
  then have rx: "limbs_val (drop k' xs) = 0" by (rule drop_zero_limbs)
  have "\<forall>j. k' \<le> j \<and> j < length ys \<longrightarrow> ys ! j = 0"
    using z k1 u l1 by (auto simp: ys_def)
  then have ry: "limbs_val (drop k' ys) = 0" by (rule drop_zero_limbs)
  have fx: "limbs_val xs = S * 4294967296 ^ (n - k')"
    using limbs_val_split[of xs k'] rx lx by (simp add: S_def)
  have fy: "limbs_val ys = S1 * 4294967296 ^ (n - k')"
    using limbs_val_split[of ys k'] ry lx by (simp add: S1_def)
  have pw: "(4294967296::nat) ^ n = 4294967296 ^ k' * 4294967296 ^ (n - k')"
    using kn by (simp flip: power_add)
  have "limbs_val ys = ((S * 1000000000) mod 4294967296 ^ k') * 4294967296 ^ (n - k')"
    unfolding fy s1 ..
  also have "\<dots> = (S * 1000000000 * 4294967296 ^ (n - k')) mod (4294967296 ^ k' * 4294967296 ^ (n - k'))"
    by (rule mod_mult_mult2[symmetric])
  also have "\<dots> = (limbs_val xs * 1000000000) mod 4294967296 ^ n"
    unfolding fx pw by (simp add: algebra_simps)
  finally show ?thesis by (simp add: xs_def ys_def n_def)
qed

lemma fractional_digits_value:
  "63 < length acc \<Longrightarrow> unat fnz < length acc \<Longrightarrow>
   (\<forall>j. unat fnz < j \<and> j < length acc \<longrightarrow> acc ! j = 0) \<Longrightarrow>
   acc ! 63 = 0 \<Longrightarrow>
   fractional_digits acc fnz dd result = Inr (acc', result') \<Longrightarrow>
   limbs_val (drop 64 acc') =
     (limbs_val (drop 64 acc) * 10 ^ (length result' - length result))
       mod 4294967296 ^ (length acc - 64)"
proof (induction acc fnz dd result rule: fractional_digits.induct)
  case (1 acc fnz dd result)
  show ?case
  proof (cases "0 < fnz \<and> length result \<le> unat dd")
    case False
    then have "fractional_digits acc fnz dd result = Inr (acc, result)"
      by (subst fractional_digits.simps) auto
    then have "acc' = acc" "result' = result" using "1.prems"(5) by simp_all
    then show ?thesis
      using limbs_val_less[of "drop 64 acc"] by simp
  next
    case True
    from fractional_round[OF "1.prems"(1,2,3), of result]
    obtain acc1 acc2 result1 fnz1 where
      m: "multiply_pow10 acc fnz 0 = Inr acc1"
      and e: "emit_digits acc1 (pow10 div 10) digits10 result = Inr (acc2, result1)"
      and inb: "\<not> length acc2 \<le> unat (block_width - 1)"
      and s: "skip_zero_limbs_down (acc2[unat (block_width - 1) := 0]) fnz = Inr fnz1"
      and lr: "length result1 = length result + 9"
      and l1: "length acc1 = length acc"
      and l3: "length (acc2[unat (block_width - 1) := 0]) = length acc"
      and p2: "unat fnz1 < length acc"
      and z3: "\<forall>j. unat fnz1 < j \<and> j < length acc \<longrightarrow> acc2[unat (block_width - 1) := 0] ! j = 0"
      and t3: "acc2[unat (block_width - 1) := 0] ! 63 = 0"
      and k3: "\<forall>j. 63 < j \<longrightarrow> acc2[unat (block_width - 1) := 0] ! j = acc1 ! j"
      by blast
    define acc3 where "acc3 = acc2[unat (block_width - 1) := 0]"
    define M where "M = (4294967296::nat) ^ (length acc - 64)"
    have l3': "length acc3 = length acc" using l3 by (simp add: acc3_def)
    have q1: "63 < length acc3" using l3' "1.prems"(1) by simp
    have q2: "unat fnz1 < length acc3" using l3' p2 by simp
    have q3: "\<forall>j. unat fnz1 < j \<and> j < length acc3 \<longrightarrow> acc3 ! j = 0"
      using z3 l3' by (simp add: acc3_def)
    have q4: "acc3 ! 63 = 0" using t3 by (simp add: acc3_def)
    have step: "fractional_digits acc fnz dd result = fractional_digits acc3 fnz1 dd result1"
      using True m e inb s
      by (subst fractional_digits.simps) (simp add: acc3_def)
    then have r: "fractional_digits acc3 fnz1 dd result1 = Inr (acc', result')"
      using "1.prems"(5) by simp
    from "1.IH"[OF True m e refl inb s q1[unfolded acc3_def] q2[unfolded acc3_def]
        q3[unfolded acc3_def] q4[unfolded acc3_def] r[unfolded acc3_def]]
    have ih: "limbs_val (drop 64 acc') =
        (limbs_val (drop 64 acc3) * 10 ^ (length result' - length result1)) mod M"
      using l3' by (simp add: acc3_def M_def)
    have ge: "length result1 \<le> length result'"
      using fractional_digits_returns[OF q1 q2 q3, of dd result1] r by auto
    have "drop (Suc 63) acc3 = drop (Suc 63) acc1"
      using k3 l3' l1 by (intro drop_eqI) (simp_all add: acc3_def)
    then have d3: "drop 64 acc3 = drop 64 acc1" by simp
    have f1: "limbs_val (drop 64 acc1) = (limbs_val (drop 64 acc) * 1000000000) mod M"
      unfolding M_def by (rule multiply_pow10_fraction[OF "1.prems"(1,2,3,4) m])
    have ex: "length result' - length result = 9 + (length result' - length result1)"
      using ge lr by simp
    have "limbs_val (drop 64 acc') =
        ((limbs_val (drop 64 acc) * 1000000000) mod M * 10 ^ (length result' - length result1)) mod M"
      unfolding ih d3 f1 ..
    also have "\<dots> = (limbs_val (drop 64 acc) * 1000000000 * 10 ^ (length result' - length result1)) mod M"
      by (rule mod_mult_left_eq)
    also have "\<dots> = (limbs_val (drop 64 acc) * 10 ^ (length result' - length result)) mod M"
      unfolding ex by (simp add: power_add algebra_simps)
    finally show ?thesis unfolding M_def .
  qed
qed

lemma pow10_mod_nonzero:
  assumes "n < 2048"
  shows "10 ^ n mod 4294967296 ^ 64 \<noteq> (0::nat)"
proof
  assume "10 ^ n mod 4294967296 ^ 64 = (0::nat)"
  then have d: "(4294967296::nat) ^ 64 dvd 10 ^ n" by (simp add: dvd_eq_mod_eq_0)
  have "(4294967296::nat) = 2 ^ 32" by simp
  then have "(4294967296::nat) ^ 64 = 2 ^ (32 * 64)" by (simp only: power_mult)
  also have "\<dots> = 2 ^ (n + (2048 - n))" using assms by simp
  also have "\<dots> = 2 ^ n * 2 ^ (2048 - n)" by (rule power_add)
  finally have e: "(4294967296::nat) ^ 64 = 2 ^ n * 2 ^ (2048 - n)" .
  have "(10::nat) ^ n = (2 * 5) ^ n" by simp
  also have "\<dots> = 2 ^ n * 5 ^ n" by (rule power_mult_distrib)
  finally have t: "(10::nat) ^ n = 2 ^ n * 5 ^ n" .
  from d have "(2::nat) ^ (2048 - n) dvd 5 ^ n" unfolding e t by simp
  moreover have "(2::nat) dvd 2 ^ (2048 - n)" using assms by simp
  ultimately have "(2::nat) dvd 5 ^ n" by (rule dvd_trans[rotated])
  then show False by simp
qed

lemma smallest_fraction_digits:
  "\<exists>acc' ds. print_fractional_part (replicate 127 0 @ [1]) = Inr (acc', ''.'' @ ds) \<and>
     length ds = 576"
proof -
  define acc0 :: "limb_int list" where "acc0 = replicate 127 0 @ [1]"
  have len: "length acc0 = 128" by (simp add: acc0_def)
  have last: "acc0 ! 127 = 1" by (simp add: acc0_def nth_append)
  have top: "acc0 ! 63 = 0" by (simp add: acc0_def nth_append)
  have s: "skip_zero_limbs_down acc0 (of_nat (length acc0) - 1) = Inr 127"
    by (subst skip_zero_limbs_down.simps) (simp add: len last)
  have dd: "((of_nat (length acc0) - ucast block_width) * of_nat digits10 - 2 :: 64 word) = 574"
    by (simp add: len block_width_def digits10_def)
  have p1: "63 < length acc0" by (simp add: len)
  have p2: "unat (127 :: 32 word) < length acc0" by (simp add: len)
  have p3: "\<forall>j. unat (127 :: 32 word) < j \<and> j < length acc0 \<longrightarrow> acc0 ! j = 0"
    by (auto simp: len)
  from fractional_digits_returns[OF p1 p2 p3, of 574 "[]"]
  obtain acc' ds where r: "fractional_digits acc0 127 574 [] = Inr (acc', ds)"
    and la: "length acc' = 128"
    and g2: "length ds \<le> 583"
    and g3: "9 dvd length ds"
    and g4: "574 < length ds \<or> (\<forall>j. 0 < j \<and> j < 128 \<longrightarrow> acc' ! j = 0)"
    by (auto simp: len)
  have "drop 64 acc0 = replicate 63 0 @ [1]" by (simp add: acc0_def)
  then have f0: "limbs_val (drop 64 acc0) = 1" by (simp add: limbs_val_replicate_zero)
  from fractional_digits_value[OF p1 p2 p3 top r]
  have v: "limbs_val (drop 64 acc') = 10 ^ length ds mod 4294967296 ^ 64"
    by (simp add: f0 len)
  have nz: "limbs_val (drop 64 acc') \<noteq> 0"
    unfolding v using g2 by (intro pow10_mod_nonzero) simp
  have "574 < length ds"
  proof (rule ccontr)
    assume "\<not> 574 < length ds"
    then have "\<forall>j. 0 < j \<and> j < 128 \<longrightarrow> acc' ! j = 0" using g4 by simp
    then have "\<forall>j. 64 \<le> j \<and> j < length acc' \<longrightarrow> acc' ! j = 0" by (simp add: la)
    then have "limbs_val (drop 64 acc') = 0" by (rule drop_zero_limbs)
    then show False using nz by simp
  qed
  moreover obtain q where "length ds = 9 * q" using g3 by (auto simp: dvd_def)
  ultimately have n: "length ds = 576" using g2 by auto
  then have "ds \<noteq> []" by auto
  then have "print_fractional_part acc0 = Inr (acc', ''.'' @ ds)"
    using s r by (simp add: print_fractional_part_def dd)
  then show ?thesis using n unfolding acc0_def by blast
qed

text \<open>
  Claim C7. The fractional digit string is said to hold at most \<open>(L - W) * D - 2\<close> digits.
  The loop tests \<open>result.size() <= dec_digits\<close> before a round and every round appends
  \<open>D = 9\<close> digits, so the count is a multiple of 9 that may pass the limit: for an accumulator
  of \<open>L\<close> limbs, \<open>64 < L < 2^32\<close>, the function returns without a fault, the string holds at
  most \<open>(L - W) * D\<close> digits, a multiple of \<open>D\<close>, and the loop has stopped either with more than
  \<open>(L - W) * D - 2\<close> digits or with every limb after the first equal to zero.
\<close>

theorem fractional_digit_count:
  assumes "64 < length acc" "length acc < 4294967296"
  shows "\<exists>acc' ds. print_fractional_part acc
            = Inr (acc', if ds \<noteq> [] then ''.'' @ ds else []) \<and>
          length acc' = length acc \<and>
          length ds \<le> (length acc - unat block_width) * digits10 \<and>
          digits10 dvd length ds \<and>
          ((length acc - unat block_width) * digits10 - 2 < length ds \<or>
           (\<forall>j. 0 < j \<and> j < length acc \<longrightarrow> acc' ! j = 0))"
  using assms by (rule print_fractional_part_returns)

theorem fractional_digit_count_witness:
  "64 < length (replicate 127 (0 :: limb_int) @ [1]) \<and>
   length (replicate 127 (0 :: limb_int) @ [1]) < 4294967296 \<and>
   (\<exists>acc' ds. print_fractional_part (replicate 127 0 @ [1])
            = Inr (acc', if ds \<noteq> [] then ''.'' @ ds else []) \<and>
          length acc' = 128 \<and> length ds \<le> 576 \<and> 9 dvd length ds)"
proof -
  have l: "length (replicate 127 (0 :: limb_int) @ [1]) = 128" by simp
  from fractional_digit_count[of "replicate 127 0 @ [1]"]
  obtain acc' ds where "print_fractional_part (replicate 127 0 @ [1])
            = Inr (acc', if ds \<noteq> [] then ''.'' @ ds else [])"
    "length acc' = 128" "length ds \<le> 576" "9 dvd length ds"
    unfolding l by (auto simp: unat_block_width digits10_def)
  then have "\<exists>acc' ds. print_fractional_part (replicate 127 0 @ [1])
            = Inr (acc', if ds \<noteq> [] then ''.'' @ ds else []) \<and>
          length acc' = 128 \<and> length ds \<le> 576 \<and> 9 dvd length ds"
    by blast
  then show ?thesis unfolding l by simp
qed

text \<open>
  An accumulator of 128 limbs whose only non-zero limb is the last one (the fraction
  \<open>2^-2048\<close>): the limit \<open>(L - W) * D - 2\<close> is 574 and the function prints 576 digits.
\<close>

theorem fraction_digits_pass_the_limit:
  "(\<exists>acc' ds. print_fractional_part (replicate 127 0 @ [1]) = Inr (acc', ''.'' @ ds) \<and>
      length ds = 576) \<and>
   (length (replicate 127 (0 :: limb_int) @ [1]) - unat block_width) * digits10 - 2 = 574"
  using smallest_fraction_digits by (simp add: unat_block_width digits10_def)

section \<open>The walk of process_block over a remainder block\<close>

text \<open>
  Where the quotient limbs of the processed terms and the remainders still to be visited
  are zero, the loops change nothing.
\<close>

lemma term_loop_zero:
  assumes sq: "\<forall>k < unat c. sq ! k \<noteq> 0" and lsq: "unat c \<le> length sq"
  shows "unat c - unat i = m \<Longrightarrow> unat i \<le> unat c \<Longrightarrow> quotent + unat c \<le> length q \<Longrightarrow>
     remainder + m \<le> length r \<Longrightarrow>
     (\<forall>k < unat c. q ! (quotent + k) = 0) \<Longrightarrow>
     (\<forall>j. remainder \<le> j \<and> j < length r \<longrightarrow> r ! j = 0) \<Longrightarrow>
     term_loop sq c quotent i q r remainder row_sum = Inr (q, r, remainder + m, row_sum)"
proof (induction m arbitrary: i remainder)
  case 0
  then have "\<not> i < c" by (simp add: word_less_nat_alt)
  then show ?case by (subst term_loop.simps) simp
next
  case (Suc m)
  have lt: "unat i < unat c" using Suc.prems(1) by simp
  then have ic: "i < c" by (simp add: word_less_nat_alt)
  have i1: "unat (i + 1) = unat i + 1"
    using lt unat_limb_less[of c] by (simp add: unat_word_ariths)
  have nob: "\<not> (length r \<le> remainder \<or> length q \<le> quotent + unat i \<or> length sq \<le> unat i)"
    using lt Suc.prems(3,4) lsq by simp
  have nz: "sq ! unat i \<noteq> 0" using sq lt by simp
  have q0: "q ! (quotent + unat i) = 0" using Suc.prems(5) lt by simp
  have r0: "r ! remainder = 0" using Suc.prems(4,6) by simp
  have qs: "q[quotent + unat i := 0] = q" using q0 list_update_id[of q "quotent + unat i"] by simp
  have rs: "r[remainder := 0] = r" using r0 list_update_id[of r remainder] by simp
  have step: "term_loop sq c quotent i q r remainder row_sum =
      term_loop sq c quotent (i + 1) q r (remainder + 1) row_sum"
    using ic nob nz by (subst term_loop.simps) (simp add: Let_def q0 r0 qs rs)
  have "term_loop sq c quotent (i + 1) q r (remainder + 1) row_sum =
      Inr (q, r, remainder + 1 + m, row_sum)"
  proof (rule Suc.IH)
    show "unat c - unat (i + 1) = m" using Suc.prems(1) i1 by simp
    show "unat (i + 1) \<le> unat c" using lt i1 by simp
    show "quotent + unat c \<le> length q" by (rule Suc.prems(3))
    show "remainder + 1 + m \<le> length r" using Suc.prems(4) by simp
    show "\<forall>k<unat c. q ! (quotent + k) = 0" by (rule Suc.prems(5))
    show "\<forall>j. remainder + 1 \<le> j \<and> j < length r \<longrightarrow> r ! j = 0" using Suc.prems(6) by simp
  qed
  then show ?case using step by simp
qed

lemma odd_divisor_step:
  fixes divisor :: "32 word"
  assumes "odd (unat divisor)"
  shows "divisor \<noteq> 0" and "odd (unat (divisor + 2))"
proof -
  show "divisor \<noteq> 0" using assms by auto
  have "unat (divisor + 2) = (unat divisor + 2) mod 4294967296"
    by (simp add: unat_word_ariths)
  moreover have "odd ((unat divisor + 2) mod 4294967296)"
    using assms by (simp add: dvd_mod_iff)
  ultimately show "odd (unat (divisor + 2))" by simp
qed

lemma row_loop_zero:
  assumes sq: "\<forall>k < unat c. sq ! k \<noteq> 0" and lsq: "unat c \<le> length sq"
  shows "length r = remainder + m * (unat c + 1) \<Longrightarrow> quotent + unat c \<le> length q \<Longrightarrow>
     (\<forall>k < unat c. q ! (quotent + k) = 0) \<Longrightarrow>
     (\<forall>j. remainder \<le> j \<and> j < length r \<longrightarrow> r ! j = 0) \<Longrightarrow>
     odd (unat divisor) \<Longrightarrow>
     row_loop sq c quotent q r remainder addition divisor delta = Inr (q, r, delta)"
proof (induction m arbitrary: remainder addition divisor delta)
  case 0
  then show ?case by (subst row_loop.simps) simp
next
  case (Suc m)
  have ne: "remainder \<noteq> length r" using Suc.prems(1) by simp
  have "term_loop sq c quotent 0 q r remainder 0 = Inr (q, r, remainder + (unat c - unat (0::32 word)), 0)"
    using Suc.prems(1,2,3,4) by (intro term_loop_zero[OF sq lsq]) simp_all
  then have t: "term_loop sq c quotent 0 q r remainder 0 = Inr (q, r, remainder + unat c, 0)"
    by simp
  have inb: "\<not> length r \<le> remainder + unat c" using Suc.prems(1) by simp
  have r0: "r ! (remainder + unat c) = 0" using Suc.prems(1,4) by simp
  have rs: "r[remainder + unat c := 0] = r"
    using r0 list_update_id[of r "remainder + unat c"] by simp
  have dnz: "divisor \<noteq> 0" using odd_divisor_step(1)[OF Suc.prems(5)] .
  have step: "row_loop sq c quotent q r remainder addition divisor delta =
      row_loop sq c quotent q r (remainder + unat c + 1) (\<not> addition) (divisor + 2) delta"
    using ne inb dnz by (subst row_loop.simps) (simp add: t Let_def r0 rs)
  have "row_loop sq c quotent q r (remainder + unat c + 1) (\<not> addition) (divisor + 2) delta =
      Inr (q, r, delta)"
  proof (rule Suc.IH)
    show "length r = remainder + unat c + 1 + m * (unat c + 1)" using Suc.prems(1) by simp
    show "quotent + unat c \<le> length q" by (rule Suc.prems(2))
    show "\<forall>k<unat c. q ! (quotent + k) = 0" by (rule Suc.prems(3))
    show "\<forall>j. remainder + unat c + 1 \<le> j \<and> j < length r \<longrightarrow> r ! j = 0"
      using Suc.prems(4) by simp
    show "odd (unat (divisor + 2))" by (rule odd_divisor_step(2)[OF Suc.prems(5)])
  qed
  then show ?case using step by simp
qed

lemma accumulate_zero: "accumulate acc 0 offset = Inr acc"
  by (subst accumulate_def, subst acc_carry.simps) simp

lemma digit_loop_zero_rows:
  assumes sq: "\<forall>k < unat c. sq ! k \<noteq> 0" and lsq: "unat c \<le> length sq"
    and n: "0 < n" "unat c \<le> n"
    and r: "length r = m * (unat c + 1)" "\<forall>j < length r. r ! j = 0"
    and d: "odd (unat divisor0)"
  shows "quotent + k * n \<le> length q \<Longrightarrow>
     (\<forall>j. quotent \<le> j \<and> j < quotent + k * n \<longrightarrow> q ! j = 0) \<Longrightarrow>
     digit_loop sq n c divisor0 q r acc quotent digit_offset =
     digit_loop sq n c divisor0 q r acc (quotent + k * n) (digit_offset + of_nat k)"
proof (induction k arbitrary: quotent digit_offset)
  case 0
  then show ?case by simp
next
  case (Suc k)
  have ne: "quotent \<noteq> length q" using Suc.prems(1) n by auto
  have rw: "row_loop sq c quotent q r 0 True divisor0 0 = Inr (q, r, 0)"
  proof (rule row_loop_zero[OF sq lsq, where m = m])
    show "length r = 0 + m * (unat c + 1)" using r by simp
    show "quotent + unat c \<le> length q" using Suc.prems(1) n by simp
    show "\<forall>k<unat c. q ! (quotent + k) = 0" using Suc.prems(2) n by simp
    show "\<forall>j. 0 \<le> j \<and> j < length r \<longrightarrow> r ! j = 0" using r by simp
    show "odd (unat divisor0)" by (rule d)
  qed
  have step: "digit_loop sq n c divisor0 q r acc quotent digit_offset =
      digit_loop sq n c divisor0 q r acc (quotent + n) (digit_offset + 1)"
    using ne by (subst digit_loop.simps) (simp add: rw accumulate_zero)
  have "digit_loop sq n c divisor0 q r acc (quotent + n) (digit_offset + 1) =
      digit_loop sq n c divisor0 q r acc (quotent + n + k * n) (digit_offset + 1 + of_nat k)"
  proof (rule Suc.IH)
    show "quotent + n + k * n \<le> length q" using Suc.prems(1) by (simp add: algebra_simps)
    show "\<forall>j. quotent + n \<le> j \<and> j < quotent + n + k * n \<longrightarrow> q ! j = 0"
      using Suc.prems(2) by (simp add: algebra_simps)
  qed
  then show ?case using step by (simp add: algebra_simps)
qed

text \<open>
  A call in the third column of the second pass for four terms \<open>a = 65535, 2, 3, 5\<close>: the
  quotient column of term 0 is zero, so \<open>count_non_zero_quotents\<close> has returned \<open>4 - 1 = 3\<close>
  and the fresh block has \<open>arg_count = 3\<close>. The quotient limbs are zero but for the last row.
\<close>

definition partial_block :: remainder_block where
  "partial_block = \<lparr>arg_count = 3, remainders = replicate 320 0\<rparr>"

definition partial_state :: state where
  "partial_state =
     \<lparr>precision = 1, pi_d = 4, multipliers = [1, 1, 1, 1], args = [65535, 2, 3, 5],
      arg_sq = [4294836225, 4, 9, 25],
      accumulator = replicate 128 0,
      quotents = replicate 252 0 @ [0, 5, 72, 1],
      remainder_column = [\<lparr>arg_count = 4, remainders = replicate 320 0\<rparr>,
                          \<lparr>arg_count = 4, remainders = replicate 320 0\<rparr>,
                          partial_block],
      block_digit_offset = 64, block_divisor_offset = 257\<rparr>"

lemma list_update_Cons_numeral:
  "(x # xs)[numeral k := v] = x # xs[pred_numeral k := v]"
  by (simp add: numeral_eq_Suc)

lemma zeros_320:
  "replicate 320 (0 :: limb_int) = 0 # 0 # 0 # 0 # 0 # 0 # 0 # 0 # replicate 312 0"
proof -
  have "replicate 320 (0 :: limb_int) = replicate (8 + 312) 0" by simp
  also have "\<dots> = replicate 8 0 @ replicate 312 0" by (rule replicate_add)
  also have "replicate 8 (0 :: limb_int) = [0, 0, 0, 0, 0, 0, 0, 0]"
    by (simp add: numeral_eq_Suc)
  finally show ?thesis by simp
qed

lemmas walk_eval = term_loop.simps Let_def limb_bits_def nth_append list_update_append
  list_update_Cons_numeral

lemma first_row_terms:
  "term_loop [4294836225, 4, 9, 25] 3 252 0 (replicate 252 0 @ [0, 5, 72, 1])
     (0 # 0 # 0 # 0 # 0 # 0 # 0 # 0 # replicate 312 0) 0 0 =
   Inr (replicate 252 0 @ [0, 1, 8, 1], 0 # 1 # 0 # 0 # 0 # 0 # 0 # 0 # replicate 312 0, 3, 9)"
  by (simp add: walk_eval cong: let_weak_cong sum.case_cong_weak prod.case_cong_weak)

lemma second_row_terms:
  "term_loop [4294836225, 4, 9, 25] 3 252 0 (replicate 252 0 @ [0, 1, 8, 1])
     (0 # 1 # 0 # 9 # 0 # 0 # 0 # 0 # replicate 312 0) 4 0 =
   Inr (replicate 252 0 @ [0, 0, 0, 1], 0 # 1 # 0 # 9 # 0 # 1 # 8 # 0 # replicate 312 0, 7, 0)"
  by (simp add: walk_eval cong: let_weak_cong sum.case_cong_weak prod.case_cong_weak)

lemma three_terms_nonzero: "\<forall>k < unat (3 :: 32 word). [4294836225, 4, 9, 25 :: limb_int] ! k \<noteq> 0"
proof (intro allI impI)
  fix k assume "k < unat (3 :: 32 word)"
  then have "k = 0 \<or> k = 1 \<or> k = 2" by auto
  then show "[4294836225, 4, 9, 25 :: limb_int] ! k \<noteq> 0" by auto
qed

lemma remaining_rows:
  "row_loop [4294836225, 4, 9, 25] 3 252 (replicate 252 0 @ [0, 0, 0, 1])
     (0 # 1 # 0 # 9 # 0 # 1 # 8 # 0 # replicate 312 0) 8 True 261 0 =
   Inr (replicate 252 0 @ [0, 0, 0, 1], 0 # 1 # 0 # 9 # 0 # 1 # 8 # 0 # replicate 312 0, 0)"
proof (rule row_loop_zero[OF three_terms_nonzero, where m = 78])
  show "unat (3 :: 32 word) \<le> length [4294836225, 4, 9, 25 :: limb_int]" by simp
  show "length (0 # 1 # 0 # 9 # 0 # 1 # 8 # 0 # replicate 312 (0 :: limb_int)) =
      8 + 78 * (unat (3 :: 32 word) + 1)"
    by simp
  show "252 + unat (3 :: 32 word) \<le> length (replicate 252 0 @ [0, 0, 0, 1 :: limb_int])" by simp
  show "\<forall>k<unat (3 :: 32 word). (replicate 252 0 @ [0, 0, 0, 1 :: limb_int]) ! (252 + k) = 0"
  proof (intro allI impI)
    fix k assume "k < unat (3 :: 32 word)"
    then have "k = 0 \<or> k = 1 \<or> k = 2" by auto
    then show "(replicate 252 0 @ [0, 0, 0, 1 :: limb_int]) ! (252 + k) = 0"
      by (auto simp: nth_append)
  qed
  show "\<forall>j. 8 \<le> j \<and> j < length (0 # 1 # 0 # 9 # 0 # 1 # 8 # 0 # replicate 312 (0 :: limb_int)) \<longrightarrow>
      (0 # 1 # 0 # 9 # 0 # 1 # 8 # 0 # replicate 312 (0 :: limb_int)) ! j = 0"
  proof (intro allI impI)
    fix j
    assume j: "8 \<le> j \<and> j < length (0 # 1 # 0 # 9 # 0 # 1 # 8 # 0 # replicate 312 (0 :: limb_int))"
    then obtain i where i: "j = 8 + i" "i < 312" by (auto simp: le_iff_add)
    have "(0 # 1 # 0 # 9 # 0 # 1 # 8 # 0 # replicate 312 (0 :: limb_int)) ! j =
        (([0, 1, 0, 9, 0, 1, 8, 0] :: limb_int list) @ replicate 312 0) ! (8 + i)"
      by (simp add: i)
    also have "\<dots> = replicate 312 (0 :: limb_int) ! i"
      using nth_append_length_plus[of "[0, 1, 0, 9, 0, 1, 8, 0] :: limb_int list" "replicate 312 0" i]
      by simp
    finally show "(0 # 1 # 0 # 9 # 0 # 1 # 8 # 0 # replicate 312 (0 :: limb_int)) ! j = 0"
      using i by simp
  qed
  show "odd (unat (261 :: 32 word))" by simp
qed

lemma last_row:
  "row_loop [4294836225, 4, 9, 25] 3 252 (replicate 252 0 @ [0, 5, 72, 1])
     (0 # 0 # 0 # 0 # 0 # 0 # 0 # 0 # replicate 312 0) 0 True 257 0 =
   Inr (replicate 252 0 @ [0, 0, 0, 1], 0 # 1 # 0 # 9 # 0 # 1 # 8 # 0 # replicate 312 0, 0)"
proof -
  have "row_loop [4294836225, 4, 9, 25] 3 252 (replicate 252 0 @ [0, 5, 72, 1])
     (0 # 0 # 0 # 0 # 0 # 0 # 0 # 0 # replicate 312 0) 0 True 257 0 =
     row_loop [4294836225, 4, 9, 25] 3 252 (replicate 252 0 @ [0, 1, 8, 1])
     (0 # 1 # 0 # 9 # 0 # 0 # 0 # 0 # replicate 312 0) 4 False 259 0"
    by (subst row_loop.simps)
       (simp add: first_row_terms Let_def limb_bits_def list_update_Cons_numeral)
  also have "\<dots> = row_loop [4294836225, 4, 9, 25] 3 252 (replicate 252 0 @ [0, 0, 0, 1])
     (0 # 1 # 0 # 9 # 0 # 1 # 8 # 0 # replicate 312 0) 8 True 261 0"
    by (subst row_loop.simps)
       (simp add: second_row_terms Let_def limb_bits_def list_update_Cons_numeral)
  also have "\<dots> = Inr (replicate 252 0 @ [0, 0, 0, 1],
      0 # 1 # 0 # 9 # 0 # 1 # 8 # 0 # replicate 312 0, 0)"
    by (rule remaining_rows)
  finally show ?thesis .
qed

lemma zero_rows:
  "digit_loop [4294836225, 4, 9, 25] 4 3 257 (replicate 252 0 @ [0, 5, 72, 1])
     (replicate 320 0) acc 0 64 =
   digit_loop [4294836225, 4, 9, 25] 4 3 257 (replicate 252 0 @ [0, 5, 72, 1])
     (replicate 320 0) acc 252 127"
proof -
  have "digit_loop [4294836225, 4, 9, 25] 4 3 257 (replicate 252 0 @ [0, 5, 72, 1])
     (replicate 320 0) acc 0 64 =
   digit_loop [4294836225, 4, 9, 25] 4 3 257 (replicate 252 0 @ [0, 5, 72, 1])
     (replicate 320 0) acc (0 + 63 * 4) (64 + of_nat 63)"
  proof (rule digit_loop_zero_rows[OF three_terms_nonzero, where m = 80])
    show "unat (3 :: 32 word) \<le> length [4294836225, 4, 9, 25 :: limb_int]" by simp
    show "0 < (4 :: nat)" by simp
    show "unat (3 :: 32 word) \<le> 4" by simp
    show "length (replicate 320 (0 :: limb_int)) = 80 * (unat (3 :: 32 word) + 1)" by simp
    show "\<forall>j<length (replicate 320 (0 :: limb_int)). replicate 320 (0 :: limb_int) ! j = 0" by simp
    show "odd (unat (257 :: 32 word))" by simp
    show "0 + 63 * 4 \<le> length (replicate 252 0 @ [0, 5, 72, 1 :: limb_int])" by simp
    show "\<forall>j. 0 \<le> j \<and> j < 0 + 63 * 4 \<longrightarrow> (replicate 252 0 @ [0, 5, 72, 1 :: limb_int]) ! j = 0"
      by (simp add: nth_append)
  qed
  then show ?thesis by simp
qed

lemma partial_block_walk:
  "process_block partial_state partial_block =
     Some (Inr (partial_state\<lparr>quotents := replicate 252 0 @ [0, 0, 0, 1]\<rparr>,
                partial_block\<lparr>remainders := [0, 1, 0, 9, 0, 1, 8, 0] @ replicate 312 0\<rparr>))"
proof -
  have "digit_loop [4294836225, 4, 9, 25] 4 3 257 (replicate 252 0 @ [0, 5, 72, 1])
      (replicate 320 0) (replicate 128 0) 0 64 =
    digit_loop [4294836225, 4, 9, 25] 4 3 257 (replicate 252 0 @ [0, 5, 72, 1])
      (0 # 0 # 0 # 0 # 0 # 0 # 0 # 0 # replicate 312 0) (replicate 128 0) 252 127"
    by (subst zero_rows) (simp only: zeros_320)
  also have "\<dots> = digit_loop [4294836225, 4, 9, 25] 4 3 257 (replicate 252 0 @ [0, 0, 0, 1])
      (0 # 1 # 0 # 9 # 0 # 1 # 8 # 0 # replicate 312 0) (replicate 128 0) 256 128"
    by (subst digit_loop.simps) (simp add: last_row accumulate_zero)
  also have "\<dots> = Some (Inr (replicate 252 0 @ [0, 0, 0, 1],
      0 # 1 # 0 # 9 # 0 # 1 # 8 # 0 # replicate 312 0, replicate 128 0))"
    by (subst digit_loop.simps) simp
  finally have dl: "digit_loop [4294836225, 4, 9, 25] 4 3 257 (replicate 252 0 @ [0, 5, 72, 1])
      (replicate 320 0) (replicate 128 0) 0 64 =
    Some (Inr (replicate 252 0 @ [0, 0, 0, 1],
      0 # 1 # 0 # 9 # 0 # 1 # 8 # 0 # replicate 312 0, replicate 128 0))" .
  have sel: "arg_sq partial_state = [4294836225, 4, 9, 25]" "length (args partial_state) = 4"
    "arg_count partial_block = 3" "block_divisor_offset partial_state = 257"
    "quotents partial_state = replicate 252 0 @ [0, 5, 72, 1]"
    "remainders partial_block = replicate 320 0"
    "accumulator partial_state = replicate 128 0" "block_digit_offset partial_state = 64"
    by (simp_all add: partial_state_def partial_block_def)
  show ?thesis
    unfolding process_block_def sel dl by (simp add: partial_state_def)
qed

lemma scan_column_zero:
  "(\<forall>j<k. limb + j * n < length q \<and> q ! (limb + j * n) = 0) \<Longrightarrow>
   scan_column q n limb k = Inr False"
proof (induction k arbitrary: limb)
  case 0
  then show ?case by simp
next
  case (Suc k)
  have h: "limb < length q" "q ! limb = 0" using Suc.prems[rule_format, of 0] by simp_all
  have "\<forall>j<k. limb + n + j * n < length q \<and> q ! (limb + n + j * n) = 0"
  proof (intro allI impI)
    fix j assume "j < k"
    then show "limb + n + j * n < length q \<and> q ! (limb + n + j * n) = 0"
      using Suc.prems[rule_format, of "Suc j"] by (simp add: algebra_simps)
  qed
  from Suc.IH[OF this] h show ?case by simp
qed

lemma scan_column_hit:
  "(\<forall>j<m. limb + j * n < length q \<and> q ! (limb + j * n) = 0) \<Longrightarrow> m < k \<Longrightarrow>
   limb + m * n < length q \<Longrightarrow> q ! (limb + m * n) \<noteq> 0 \<Longrightarrow>
   scan_column q n limb k = Inr True"
proof (induction m arbitrary: limb k)
  case 0
  then obtain k' where "k = Suc k'" by (cases k) auto
  then show ?case using 0 by simp
next
  case (Suc m)
  obtain k' where k: "k = Suc k'" "m < k'" using Suc.prems(2) by (cases k) auto
  have h: "limb < length q" "q ! limb = 0" using Suc.prems(1)[rule_format, of 0] by simp_all
  have z: "\<forall>j<m. limb + n + j * n < length q \<and> q ! (limb + n + j * n) = 0"
  proof (intro allI impI)
    fix j assume "j < m"
    then show "limb + n + j * n < length q \<and> q ! (limb + n + j * n) = 0"
      using Suc.prems(1)[rule_format, of "Suc j"] by (simp add: algebra_simps)
  qed
  have "scan_column q n (limb + n) k' = Inr True"
    using Suc.prems(3,4) by (intro Suc.IH[OF z k(2)]) (simp_all add: algebra_simps)
  then show ?case using h k by simp
qed

lemma partial_state_column:
  "j < 63 \<Longrightarrow> (replicate 252 0 @ [0, 5, 72, 1 :: limb_int]) ! (i + j * 4) = 0" if "i < 4" for i j
  using that by (simp add: nth_append)

lemma partial_state_count: "count_non_zero_quotents partial_state = Inr 3"
proof -
  define q :: "limb_int list" where "q = replicate 252 0 @ [0, 5, 72, 1]"
  have lq: "length q = 256" by (simp add: q_def)
  have z0: "\<forall>j<64. 0 + j * 4 < length q \<and> q ! (0 + j * 4) = 0"
  proof (intro allI impI)
    fix j :: nat assume j: "j < 64"
    show "0 + j * 4 < length q \<and> q ! (0 + j * 4) = 0"
    proof (cases "j < 63")
      case True
      then show ?thesis using partial_state_column[of 0 j] by (simp add: lq q_def)
    next
      case False
      then have "j = 63" using j by simp
      then show ?thesis by (simp add: q_def nth_append)
    qed
  qed
  have c0: "scan_column q 4 0 64 = Inr False" by (rule scan_column_zero[OF z0])
  have z1: "\<forall>j<63. 1 + j * 4 < length q \<and> q ! (1 + j * 4) = 0"
  proof (intro allI impI)
    fix j :: nat assume j: "j < 63"
    then show "1 + j * 4 < length q \<and> q ! (1 + j * 4) = 0"
      using partial_state_column[of 1 j] by (simp add: lq q_def)
  qed
  have "scan_column q 4 1 64 = Inr True"
    by (rule scan_column_hit[OF z1]) (simp_all add: q_def nth_append)
  then have c1: "scan_column q 4 (Suc 0) 64 = Inr True" by simp
  have "count_from q 4 0 = count_from q 4 (Suc 0)"
    by (subst count_from.simps) (simp add: unat_block_width c0)
  also have "\<dots> = Inr 3"
    by (subst count_from.simps) (simp add: unat_block_width c1)
  finally have "count_from q 4 0 = Inr 3" .
  moreover have "quotents partial_state = q" "length (args partial_state) = 4"
    by (simp_all add: partial_state_def q_def)
  ultimately show ?thesis by (simp add: count_non_zero_quotents_def)
qed

text \<open>
  Claim C4.  After every call of \<open>process_block\<close> on a block, the remainder stored at
  \<open>r * (N + 1) + i\<close> is said to be below \<open>a\<^sub>i\<^sup>2\<close> for every row \<open>r\<close> and every active term
  \<open>i < arg_count\<close>.  The block is allocated with \<open>N + 1\<close> slots a row, but the walk of
  \<open>process_block\<close> advances by \<open>arg_count + 1\<close> slots a row, and \<open>arg_count\<close> is what
  \<open>count_non_zero_quotents\<close> returned: \<open>N\<close> minus the index of the first term whose quotient
  column is not zero.  In \<open>partial_state\<close> that count is 3 of \<open>N = 4\<close> terms; the call on the
  fresh block of the column writes the remainder of term 2 in the second row, \<open>8 < 3\<^sup>2\<close>, into
  slot \<open>1 * 4 + 2 = 6\<close>, which is the slot \<open>1 * (N + 1) + 1\<close> of term 1 in row 1, and
  \<open>a\<^sub>1\<^sup>2 = 4\<close>.
\<close>

theorem remainder_rows_follow_arg_count:
  "count_non_zero_quotents partial_state = Inr (arg_count partial_block) \<and>
   process_block partial_state partial_block =
     Some (Inr (partial_state\<lparr>quotents := replicate 252 0 @ [0, 0, 0, 1]\<rparr>,
                partial_block\<lparr>remainders := [0, 1, 0, 9, 0, 1, 8, 0] @ replicate 312 0\<rparr>)) \<and>
   (1 :: 32 word) < arg_count partial_block \<and>
   ([0, 1, 0, 9, 0, 1, 8, 0] @ replicate 312 0) ! (1 * (length (args partial_state) + 1) + 1)
     = (8 :: limb_int) \<and>
   arg_sq partial_state ! 1 = 4 \<and> args partial_state ! 1 = 2"
  using partial_state_count partial_block_walk
  by (simp add: partial_block_def partial_state_def)

section \<open>A run that exits\<close>

text \<open>
  The run \<open>precision = 1, d = 1, m = 0, a = 2\<close>: the seed is zero, every block leaves the
  quotients and remainders zero, the accumulator stays zero and the program prints \<open>0\<close>.
\<close>

definition zero_block :: remainder_block where
  "zero_block = \<lparr>arg_count = 1, remainders = replicate 128 0\<rparr>"

definition zero_run :: "remainder_block list \<Rightarrow> 32 word \<Rightarrow> 32 word \<Rightarrow> state" where
  "zero_run rc off dv =
     \<lparr>precision = 1, pi_d = 1, multipliers = [0], args = [2], arg_sq = [4],
      accumulator = replicate 128 0, quotents = replicate 64 0,
      remainder_column = rc, block_digit_offset = off, block_divisor_offset = dv\<rparr>"

lemma replicate_update_same: "(replicate n x)[i := x] = replicate n x"
proof (cases "i < n")
  case True
  then show ?thesis using list_update_id[of "replicate n x" i] by simp
next
  case False
  then show ?thesis by (simp add: list_update_beyond)
qed

lemma zero_run_initial:
  "initialize_variables \<lparr>precision = 1, pi_d = 1, multipliers = [0], args = [2], arg_sq = [4]\<rparr>
     = Inr (zero_run [] 0 1)"
proof -
  let ?p = "\<lparr>precision = 1, pi_d = 1, multipliers = [0], args = [2 :: limb_int], arg_sq = [4]\<rparr>"
  have e: "seed_quotents ?p (Suc 0) q = Inr q" for q
    by (subst seed_quotents.simps) simp
  have "seed_quotents ?p 0 (replicate 64 0) = Inr (replicate 64 0)"
    by (subst seed_quotents.simps)
       (simp add: Let_def unat_block_width_m1 unat_block_width_m2 limb_bits_def
          replicate_update_same e)
  then show ?thesis
    by (simp add: initialize_variables_def accumulator_size_eval zero_run_def)
qed

lemma zero_run_block:
  "process_block (zero_run rc off 1) zero_block = Some (Inr (zero_run rc off 1, zero_block))"
proof -
  have "digit_loop [4] 1 1 1 (replicate 64 0) (replicate 128 0) (replicate 128 0) 0 off =
      digit_loop [4] 1 1 1 (replicate 64 0) (replicate 128 0) (replicate 128 0) (0 + 64 * 1)
        (off + of_nat 64)"
    by (rule digit_loop_zero_rows[where m = 64]) simp_all
  also have "\<dots> = Some (Inr (replicate 64 0, replicate 128 0, replicate 128 0))"
    by (subst digit_loop.simps) simp
  finally show ?thesis
    by (simp add: process_block_def zero_run_def zero_block_def)
qed

lemma zero_run_count: "count_non_zero_quotents (zero_run rc off dv) = Inr 0"
proof -
  have "scan_column (replicate 64 0) 1 0 64 = Inr False"
    by (rule scan_column_zero) simp
  then have "count_from (replicate 64 0) 1 0 = count_from (replicate 64 0) 1 (Suc 0)"
    by (subst count_from.simps) (simp add: unat_block_width)
  also have "\<dots> = Inr 0" by (subst count_from.simps) simp
  finally show ?thesis by (simp add: count_non_zero_quotents_def zero_run_def)
qed

lemma zero_run_column:
  assumes "rc = [] \<or> rc = [zero_block]"
  shows "column_loop (zero_run rc off 1) 1 0 = Some (Inr (zero_run [zero_block] off 129))"
proof -
  have e: "ensure_block (zero_run rc off 1) 0 1 = [zero_block]"
    using assms by (auto simp: ensure_block_def zero_run_def zero_block_def block_height_def)
  have b: "zero_block\<lparr>arg_count := max (arg_count zero_block) 1\<rparr> = zero_block"
    by (simp add: zero_block_def)
  have u: "(zero_run rc off 1)\<lparr>remainder_column := [zero_block]\<rparr> = zero_run [zero_block] off 1"
    by (simp add: zero_run_def)
  have d: "(zero_run [zero_block] off 1)\<lparr>block_divisor_offset :=
      block_divisor_offset (zero_run [zero_block] off 1) + 2 * block_height\<rparr>
      = zero_run [zero_block] off 129"
    by (simp add: zero_run_def block_height_def)
  have l: "remainder_column (zero_run [zero_block] off 129) = [zero_block]"
    by (simp add: zero_run_def)
  show ?thesis
    by (subst column_loop.simps)
       (simp add: Let_def e b zero_run_block u zero_run_count d l)
qed

lemma zero_run_loop: "main_loop (zero_run [] 0 1) = Some (Inr (zero_run [zero_block] 128 129))"
proof -
  have s: "(zero_run rc off dv)\<lparr>block_divisor_offset := 1\<rparr> = zero_run rc off 1"
    "(zero_run rc off dv)\<lparr>block_digit_offset := x\<rparr> = zero_run rc x dv"
    "length (args (zero_run rc off dv)) = 1" "block_digit_offset (zero_run rc off dv) = off"
    "length (accumulator (zero_run rc off dv)) = 128"
    for rc off dv x
    by (simp_all add: zero_run_def)
  have "main_loop (zero_run [] 0 1) = main_loop (zero_run [zero_block] 64 129)"
    by (subst main_loop.simps) (simp add: s zero_run_column block_width_def)
  also have "\<dots> = main_loop (zero_run [zero_block] 128 129)"
    by (subst main_loop.simps) (simp add: s zero_run_column block_width_def)
  also have "\<dots> = Some (Inr (zero_run [zero_block] 128 129))"
    by (subst main_loop.simps) (simp add: s)
  finally show ?thesis .
qed

lemma zero_integer_part:
  "print_integer_part (replicate 128 0) = Inr (replicate 128 0, ''0'')"
  using print_integer_part_emits[of "replicate 128 0"]
  by (simp add: limbs_val_replicate_zero flip: replicate_add)

lemma zero_fractional_part:
  "print_fractional_part (replicate 128 0) = Inr (replicate 128 0, [])"
proof -
  have l: "(of_nat (length (replicate 128 (0 :: limb_int))) - 1 :: 32 word) = 127" by simp
  have "unat (127 :: 32 word) < length (replicate 128 (0 :: limb_int))" by simp
  from skip_zero_limbs_down_returns[OF this]
  obtain f where s: "skip_zero_limbs_down (replicate 128 0) 127 = Inr f"
    and b: "unat f \<le> unat (127 :: 32 word)"
    and nz: "0 < unat f \<longrightarrow> replicate 128 (0 :: limb_int) ! unat f \<noteq> 0"
    by (elim exE conjE)
  have "unat f = 0"
  proof (rule ccontr)
    assume "unat f \<noteq> 0"
    then have "replicate 128 (0 :: limb_int) ! unat f \<noteq> 0" using nz by simp
    moreover have "unat f < 128" using b by simp
    ultimately show False by simp
  qed
  then have f: "f = 0" by (simp add: unat_eq_zero)
  have fd: "fractional_digits (replicate 128 0) 0 dd [] = Inr (replicate 128 0, [])" for dd
    by (subst fractional_digits.simps) simp
  show ?thesis
    unfolding print_fractional_part_def l s f by (simp add: fd)
qed

lemma zero_run_exits:
  "main [''pi'', ''1'', ''1'', ''0'', ''2''] = Some (Inr (''0'' @ [CHR 0x0A], 0))"
proof -
  have r: "read_parameters [''pi'', ''1'', ''1'', ''0'', ''2''] =
      Inr \<lparr>precision = 1, pi_d = 1, multipliers = [0], args = [2], arg_sq = [4]\<rparr>"
    by (simp add: read_parameters_eval)
  have a: "accumulator (zero_run [zero_block] 128 129) = replicate 128 0"
    by (simp add: zero_run_def)
  show ?thesis
    unfolding main_accepted[OF r] zero_run_initial
    by (simp add: zero_run_loop a zero_integer_part zero_fractional_part)
qed

text \<open>
  Claim C9.  The three sentences on the validation hold (\<open>validation_bounds\<close>).  The last
  one is that a run on valid arguments exits with code 0.  The run
  \<open>precision = 1, d = 1, m = 0, a = 2\<close> does.  But the validation has no lower bound on an
  argument, so \<open>precision = 1, d = 1, m = 1, a = 1\<close> is accepted as well, and the run on
  these arguments never reaches the end of \<open>main\<close>.  It is the run of claim C5: a division
  by \<open>arg_sq = 1\<close> never lets the quotient decay, and the \<open>do ... while\<close> loop never ends.
\<close>

theorem valid_run_without_exit:
  "main [''pi'', ''1'', ''1'', ''0'', ''2''] = Some (Inr (''0'' @ [CHR 0x0A], 0)) \<and>
   read_parameters [''pi'', ''1'', ''1'', ''1'', ''1''] =
     Inr \<lparr>precision = 1, pi_d = 1, multipliers = [1], args = [1], arg_sq = [1]\<rparr> \<and>
   \<not> returns_normally (main [''pi'', ''1'', ''1'', ''1'', ''1''])"
proof -
  let ?p = "\<lparr>precision = 1, pi_d = 1, multipliers = [1], args = [1], arg_sq = [1]\<rparr>"
  have r: "read_parameters [''pi'', ''1'', ''1'', ''1'', ''1''] = Inr ?p"
    by (simp add: read_parameters_eval)
  have "\<not> returns_normally (main [''pi'', ''1'', ''1'', ''1'', ''1''])"
    by (rule main_unit_argument[OF r])
       (simp_all add: seed_value_def accumulator_size_eval)
  with r zero_run_exits show ?thesis by simp
qed

end
